theory Spec2Isabelle
  imports Main "HOL-Library.Multiset" "HOL-Library.Char_ord" "HOL-Library.List_Lexorder"
begin

section \<open>Record parser and validator (ingestionProcessor, lines 32--61)\<close>

text \<open>
  Strings are byte lists. Every test the parser makes on a line (the delimiter, the
  hexadecimal digits of a UUID, the literal NULL) is a test on ASCII characters.
\<close>

type_synonym uuid = string

text \<open>\<^verbatim>\<open>line.split('|')\<close>: always at least one part; the empty line gives one empty part.\<close>

fun split_pipe :: "string \<Rightarrow> string list" where
  "split_pipe [] = [[]]"
| "split_pipe (c # cs) =
     (if c = CHR ''|'' then [] # split_pipe cs
      else (case split_pipe cs of p # ps \<Rightarrow> (c # p) # ps | [] \<Rightarrow> [[c]]))"

text \<open>\<^verbatim>\<open>rest.join('|')\<close>.\<close>

fun join_pipe :: "string list \<Rightarrow> string" where
  "join_pipe [] = []"
| "join_pipe [p] = p"
| "join_pipe (p # q # ps) = p @ CHR ''|'' # join_pipe (q # ps)"

definition is_hex :: "char \<Rightarrow> bool" where
  "is_hex c = (let n = (of_char c :: nat) in
     (48 \<le> n \<and> n \<le> 57) \<or> (97 \<le> n \<and> n \<le> 102) \<or> (65 \<le> n \<and> n \<le> 70))"

text \<open>
  \<^verbatim>\<open>UUID_REGEX.test(s)\<close> for
  \<^verbatim>\<open>/^[0-9a-f]{8}-[0-9a-f]{4}-[0-9a-f]{4}-[0-9a-f]{4}-[0-9a-f]{12}$/i\<close>:
  the anchors make it a test of the whole string, 36 characters long.
\<close>

definition UUID_REGEX_test :: "string \<Rightarrow> bool" where
  "UUID_REGEX_test s =
     (length s = 36 \<and>
      list_all is_hex (take 8 s) \<and> s ! 8 = CHR ''-'' \<and>
      list_all is_hex (take 4 (drop 9 s)) \<and> s ! 13 = CHR ''-'' \<and>
      list_all is_hex (take 4 (drop 14 s)) \<and> s ! 18 = CHR ''-'' \<and>
      list_all is_hex (take 4 (drop 19 s)) \<and> s ! 23 = CHR ''-'' \<and>
      list_all is_hex (take 12 (drop 24 s)))"

definition toUpperCase :: "string \<Rightarrow> string" where
  "toUpperCase s =
     map (\<lambda>c. let n = (of_char c :: nat) in
                 if 97 \<le> n \<and> n \<le> 122 then char_of (n - 32) else c) s"

fun show_nat :: "nat \<Rightarrow> string" where
  "show_nat n =
     (if n < 10 then [char_of (48 + n)]
      else show_nat (n div 10) @ [char_of (48 + n mod 10)])"

declare show_nat.simps [simp del]

definition quoted :: "string \<Rightarrow> string" where
  "quoted s = CHR 0x27 # s @ [CHR 0x27]"

text \<open>
  A JavaScript exception value: a plain \<^verbatim>\<open>Error\<close> has a message and no \<^verbatim>\<open>code\<close>; an
  error raised by the database driver carries the SQLSTATE in \<^verbatim>\<open>code\<close>.
\<close>

datatype js_error = Error string | DatabaseError string string

fun message :: "js_error \<Rightarrow> string" where
  "message (Error m) = m"
| "message (DatabaseError c m) = m"

fun code :: "js_error \<Rightarrow> string option" where
  "code (Error m) = None"
| "code (DatabaseError c m) = Some c"

definition FK_VIOLATION_CODE :: string where
  "FK_VIOLATION_CODE = ''23503''"

text \<open>\<^verbatim>\<open>{ originalSourceFile, lineNumber, researchValue }\<close>, in that order.\<close>

type_synonym metadata = "string \<times> nat \<times> string"

text \<open>
  A row of \<^verbatim>\<open>historical_events\<close> and of \<^verbatim>\<open>staging_events\<close>, which is also the
  parameter list \<^verbatim>\<open>queryParams\<close>. Dates are milliseconds since the epoch
  (\<^verbatim>\<open>Date.getTime()\<close>); \<^verbatim>\<open>parent_event_id\<close> is \<open>None\<close> for \<^verbatim>\<open>null\<close>.
\<close>

record event =
  event_id :: uuid
  event_name :: string
  description :: string
  start_date :: int
  end_date :: int
  duration_minutes :: int
  parent_event_id :: "uuid option"
  metadata :: metadata

text \<open>
  The body of the per-line \<^verbatim>\<open>try\<close> up to the insert. \<^verbatim>\<open>new Date(iso)\<close> belongs to the
  JavaScript engine and is the parameter \<open>parseDate\<close>: \<open>None\<close> is an invalid date
  (\<^verbatim>\<open>getTime()\<close> is \<^verbatim>\<open>NaN\<close>). \<^verbatim>\<open>Math.round(d / 60000)\<close> rounds half up, which for an
  integer \<open>d\<close> is \<open>(d + 30000) div 60000\<close>.
\<close>

definition parseLine ::
  "(string \<Rightarrow> int option) \<Rightarrow> string \<Rightarrow> nat \<Rightarrow> string \<Rightarrow> js_error + event" where
  "parseLine parseDate filePath lineNo line =
     (let parts = split_pipe line in
      if length parts \<noteq> 7 then
        Inl (Error (''Invalid number of fields. Expected 7, got '' @ show_nat (length parts) @ ''.''))
      else
        let eventId = parts ! 0; eventName = parts ! 1;
            startDateIso = parts ! 2; endDateIso = parts ! 3;
            parentIdOrNull = parts ! 4; researchVal = parts ! 5;
            rest = drop 6 parts;
            descr = join_pipe rest
        in
        if \<not> UUID_REGEX_test eventId then
          Inl (Error (''Invalid UUID format for event_id: '' @ quoted eventId))
        else
          let parentEventId =
                (if toUpperCase parentIdOrNull = ''NULL'' then None else Some parentIdOrNull)
          in
          if (case parentEventId of None \<Rightarrow> False
              | Some p \<Rightarrow> p \<noteq> [] \<and> \<not> UUID_REGEX_test p) then
            Inl (Error (''Invalid UUID format for parent_event_id: '' @ quoted (case parentEventId of Some p \<Rightarrow> p | None \<Rightarrow> [])))
          else
            (case (parseDate startDateIso, parseDate endDateIso) of
               (Some startDate, Some endDate) \<Rightarrow>
                 if startDate > endDate then
                   Inl (Error ''start_date cannot be after end_date.'')
                 else
                   Inr \<lparr> event_id = eventId, event_name = eventName, description = descr,
                         start_date = startDate, end_date = endDate,
                         duration_minutes = (endDate - startDate + 30000) div 60000,
                         parent_event_id = parentEventId,
                         metadata = (filePath, lineNo, researchVal) \<rparr>
             | _ \<Rightarrow>
                 Inl (Error (''Invalid date format. Start: '' @ quoted startDateIso
                             @ '', End: '' @ quoted endDateIso))))"

section \<open>The tables (schema file) and the statements run on them\<close>

datatype job_status = PENDING | PROCESSING | COMPLETED | FAILED

text \<open>The row of \<^verbatim>\<open>ingestion_jobs\<close> whose \<^verbatim>\<open>job_id\<close> is the job being run.\<close>

record ingestion_job =
  status :: job_status
  file_path :: string
  total_lines :: nat
  processed_lines :: nat
  error_lines :: nat
  errors :: "string list"
  end_time :: "int option"

record database =
  historical_events :: "event list"
  staging_events :: "event list"
  job :: ingestion_job

text \<open>
  What the code does not contain and a run depends on:
  \<^item> \<open>parseDate\<close>: \<^verbatim>\<open>new Date(iso).getTime()\<close>;
  \<^item> \<open>dataException\<close>: the storage engine's coercion of the insert parameters to the
    column types (\<^verbatim>\<open>UUID\<close>, \<^verbatim>\<open>VARCHAR(255)\<close>, \<^verbatim>\<open>TIMESTAMPTZ\<close>, \<^verbatim>\<open>INTEGER\<close>);
    \<open>Some m\<close> when it rejects the row, which it does before any key is looked at and
    with a SQLSTATE of class 22;
  \<^item> \<open>markProcessingError\<close>: \<open>Some m\<close> when the first statement of the job, the update
    to \<^verbatim>\<open>PROCESSING\<close>, fails. Every other statement fails only when the tables make it
    fail (a foreign key or a primary key);
  \<^item> \<open>forwardsStreamErrors\<close>: whether the runtime raises an error of the input stream
    inside the \<^verbatim>\<open>for await\<close> loop, where the handler of \<^verbatim>\<open>processFile\<close> catches it,
    or as an unhandled event that ends the process;
  \<^item> \<open>now\<close>: the value of \<^verbatim>\<open>NOW()\<close> when the job ends.
\<close>

record env =
  parseDate :: "string \<Rightarrow> int option"
  dataException :: "event \<Rightarrow> string option"
  markProcessingError :: "string option"
  forwardsStreamErrors :: bool
  now :: int

text \<open>The input stream: the lines it delivers, then the end of the file or an I/O error.\<close>

record file_stream =
  lines :: "string list"
  io_error :: "string option"

text \<open>
  \<^verbatim>\<open>INSERT INTO ingestion_jobs (status, file_path) VALUES ('PENDING', $1)\<close>, the other
  columns at their defaults.
\<close>

definition new_job :: "string \<Rightarrow> ingestion_job" where
  "new_job filePath =
     \<lparr> status = PENDING, file_path = filePath, total_lines = 0, processed_lines = 0,
       error_lines = 0, errors = [], end_time = None \<rparr>"

definition createIngestionJob :: "string \<Rightarrow> database \<Rightarrow> database" where
  "createIngestionJob filePath db = db\<lparr> job := new_job filePath \<rparr>"

text \<open>A \<^verbatim>\<open>UUID\<close> column holds the value in lower case, whatever case the text had.\<close>

definition pg_uuid :: "string \<Rightarrow> uuid" where
  "pg_uuid s =
     map (\<lambda>c. let n = (of_char c :: nat) in
                 if 65 \<le> n \<and> n \<le> 90 then char_of (n + 32) else c) s"

definition pg_row :: "event \<Rightarrow> event" where
  "pg_row ev = ev\<lparr> event_id := pg_uuid (event_id ev),
                     parent_event_id := map_option pg_uuid (parent_event_id ev) \<rparr>"

definition ids :: "event list \<Rightarrow> uuid set" where
  "ids rows = set (map event_id rows)"

text \<open>The engine's messages put the names of tables and constraints in double quotes.\<close>

definition fk_message :: string where
  "fk_message =
     ''insert or update on table '' @ [CHR 0x22] @ ''historical_events'' @ [CHR 0x22] @
     '' violates foreign key constraint '' @ [CHR 0x22] @ ''fk_parent_event'' @ [CHR 0x22]"

definition pk_message :: string where
  "pk_message =
     ''duplicate key value violates unique constraint '' @ [CHR 0x22] @
     ''historical_events_pkey'' @ [CHR 0x22]"

text \<open>
  \<^verbatim>\<open>INSERT INTO historical_events ... ON CONFLICT (event_id) DO NOTHING\<close> (lines 63--71).
  A row whose key exists is skipped and no constraint is checked for it; a new row needs
  its parent, if any, among the rows of the table after the insert (so a row may name
  itself), else the statement fails with SQLSTATE 23503.
\<close>

definition insertEvent :: "env \<Rightarrow> event \<Rightarrow> database \<Rightarrow> js_error + database" where
  "insertEvent e ev db =
     (case dataException e ev of
        Some m \<Rightarrow> Inl (DatabaseError ''22000'' m)
      | None \<Rightarrow>
          let row = pg_row ev; h = historical_events db in
          if event_id row \<in> ids h then Inr db
          else if (case parent_event_id row of None \<Rightarrow> True
                   | Some p \<Rightarrow> p \<in> ids (h @ [row]))
               then Inr (db\<lparr> historical_events := h @ [row] \<rparr>)
          else Inl (DatabaseError FK_VIOLATION_CODE fk_message))"

text \<open>
  \<^verbatim>\<open>INSERT INTO staging_events ... ON CONFLICT (event_id) DO NOTHING\<close> (lines 87--93); the
  table has a primary key and no foreign key.
\<close>

definition insertStaging :: "event \<Rightarrow> database \<Rightarrow> database" where
  "insertStaging ev db =
     (let row = pg_row ev; s = staging_events db in
      if event_id row \<in> ids s then db else db\<lparr> staging_events := s @ [row] \<rparr>)"

text \<open>
  The promotion statement \<^verbatim>\<open>deferredQuery\<close> (lines 110--129). \<open>first_part\<close> joins the
  staged rows with the main table on the parent; \<open>second_part\<close> joins the staged rows with
  \<open>first_part\<close> on the parent. Their concatenation (\<^verbatim>\<open>UNION ALL\<close>) is inserted with no
  \<^verbatim>\<open>ON CONFLICT\<close> clause: a key that is already in the main table, or twice among the
  new rows, fails the whole statement with SQLSTATE 23505 and inserts nothing. The
  parents of the new rows are in the table or among the new rows, so the foreign key
  holds. No statement deletes from \<^verbatim>\<open>staging_events\<close>.
\<close>

definition first_part :: "database \<Rightarrow> event list" where
  "first_part db =
     [s. s \<leftarrow> staging_events db, h \<leftarrow> historical_events db,
         parent_event_id s = Some (event_id h)]"

definition second_part :: "database \<Rightarrow> event list" where
  "second_part db =
     [s. s \<leftarrow> staging_events db, fp \<leftarrow> first_part db,
         parent_event_id s = Some (event_id fp)]"

definition deferredQuery :: "database \<Rightarrow> js_error + database" where
  "deferredQuery db =
     (let rows = first_part db @ second_part db; h = historical_events db in
      if distinct (map event_id rows) \<and> ids rows \<inter> ids h = {}
      then Inr (db\<lparr> historical_events := h @ rows \<rparr>)
      else Inl (DatabaseError ''23505'' pk_message))"

section \<open>The ingestion job (\<^verbatim>\<open>processFile\<close>)\<close>

record loop_state =
  lineNumber :: nat
  localErrorCount :: nat
  localSuccessCount :: nat

text \<open>
  The \<^verbatim>\<open>catch\<close> of one line (lines 83--107). \<open>queryParams\<close> is assigned on every path
  that reaches the insert, the only statement that can raise SQLSTATE 23503, so the
  staged row is the row of the current line.
\<close>

definition catchLine :: "js_error \<Rightarrow> event option \<Rightarrow> database \<times> loop_state \<Rightarrow> database \<times> loop_state" where
  "catchLine err queryParams st =
     (case st of (db, ls) \<Rightarrow>
      if code err = Some FK_VIOLATION_CODE then
        (case queryParams of
           Some ev \<Rightarrow> (insertStaging ev db, ls\<lparr> localSuccessCount := localSuccessCount ls + 1 \<rparr>)
         | None \<Rightarrow> (db, ls\<lparr> localSuccessCount := localSuccessCount ls + 1 \<rparr>))
      else
        (db\<lparr> job := (job db)\<lparr> error_lines := error_lines (job db) + 1,
                              errors := errors (job db) @
                                [''Line '' @ show_nat (lineNumber ls) @ '': '' @ message err] \<rparr> \<rparr>,
         ls\<lparr> localErrorCount := localErrorCount ls + 1 \<rparr>))"

text \<open>One iteration of the \<^verbatim>\<open>for await\<close> loop (lines 28--108).\<close>

definition processLine :: "env \<Rightarrow> string \<Rightarrow> database \<times> loop_state \<Rightarrow> string \<Rightarrow> database \<times> loop_state" where
  "processLine e filePath st line =
     (case st of (db, ls0) \<Rightarrow>
      (let ls = ls0\<lparr> lineNumber := lineNumber ls0 + 1 \<rparr> in
       (case parseLine (parseDate e) filePath (lineNumber ls) line of
          Inl err \<Rightarrow> catchLine err None (db, ls)
        | Inr ev \<Rightarrow>
            (case insertEvent e ev db of
               Inl err \<Rightarrow> catchLine err (Some ev) (db, ls)
             | Inr db' \<Rightarrow>
                 (let ls' = ls\<lparr> localSuccessCount := localSuccessCount ls + 1 \<rparr> in
                  (db'\<lparr> job := (job db')\<lparr> processed_lines := localSuccessCount ls',
                                           total_lines := lineNumber ls' \<rparr> \<rparr>, ls'))))))"

fun readLines :: "env \<Rightarrow> string \<Rightarrow> database \<times> loop_state \<Rightarrow> string list \<Rightarrow> database \<times> loop_state" where
  "readLines e filePath st [] = st"
| "readLines e filePath st (line # rest) = readLines e filePath (processLine e filePath st line) rest"

text \<open>How a call of \<^verbatim>\<open>processFile\<close> ends: its promise settles, or the process dies.\<close>

datatype completion = Returned | Uncaught string

text \<open>The outer \<^verbatim>\<open>catch\<close> (lines 141--153).\<close>

definition catchFatal :: "env \<Rightarrow> bool \<Rightarrow> js_error \<Rightarrow> database \<Rightarrow> database" where
  "catchFatal e hasUpdatedStatusToProcessing err db =
     db\<lparr> job := (job db)\<lparr> status := (if hasUpdatedStatusToProcessing then FAILED else PENDING),
                          errors := errors (job db) @ [''Fatal Error: '' @ message err],
                          end_time := Some (now e) \<rparr> \<rparr>"

definition finalUpdateQuery :: "env \<Rightarrow> loop_state \<Rightarrow> database \<Rightarrow> database" where
  "finalUpdateQuery e ls db =
     db\<lparr> job := (job db)\<lparr> status := COMPLETED, total_lines := lineNumber ls,
                          processed_lines := localSuccessCount ls,
                          end_time := Some (now e) \<rparr> \<rparr>"

definition processFile :: "env \<Rightarrow> string \<Rightarrow> file_stream \<Rightarrow> database \<Rightarrow> database \<times> completion" where
  "processFile e filePath input db =
     (case markProcessingError e of
        Some m \<Rightarrow> (catchFatal e False (Error m) db, Returned)
      | None \<Rightarrow>
          let db1 = db\<lparr> job := (job db)\<lparr> status := PROCESSING \<rparr> \<rparr>;
              start = \<lparr> lineNumber = 0, localErrorCount = 0, localSuccessCount = 0 \<rparr>
          in
          case readLines e filePath (db1, start) (lines input) of (db2, ls) \<Rightarrow>
          (case io_error input of
             Some m \<Rightarrow>
               if forwardsStreamErrors e then (catchFatal e True (Error m) db2, Returned)
               else (db2, Uncaught m)
           | None \<Rightarrow>
               (case deferredQuery db2 of
                  Inl err \<Rightarrow> (catchFatal e True err db2, Returned)
                | Inr db3 \<Rightarrow> (finalUpdateQuery e ls db3, Returned))))"

text \<open>
  A file with no malformed line and no forward reference, read from line \<open>n + 1\<close> on a
  main store that holds the IDs \<open>committed\<close>: every line parses, the column types accept
  its row, and its parent, if any, is committed when the line is reached.
\<close>

fun clean :: "env \<Rightarrow> string \<Rightarrow> uuid set \<Rightarrow> nat \<Rightarrow> string list \<Rightarrow> bool" where
  "clean e filePath committed n [] = True"
| "clean e filePath committed n (line # rest) =
     (case parseLine (parseDate e) filePath (n + 1) line of
        Inl err \<Rightarrow> False
      | Inr ev \<Rightarrow>
          dataException e ev = None \<and>
          (case parent_event_id (pg_row ev) of None \<Rightarrow> True | Some p \<Rightarrow> p \<in> committed) \<and>
          clean e filePath (insert (event_id (pg_row ev)) committed) (n + 1) rest)"

section \<open>Example files\<close>

definition ex_parseDate :: "string \<Rightarrow> int option" where
  "ex_parseDate s =
     (if s = ''2023-01-01T00:00:00Z'' then Some 1672531200000
      else if s = ''2023-01-01T01:00:00Z'' then Some 1672534800000
      else None)"

definition ex_accept :: "event \<Rightarrow> string option" where
  "ex_accept ev = None"

definition ex_env :: env where
  "ex_env =
     \<lparr> parseDate = ex_parseDate, dataException = ex_accept, markProcessingError = None,
       forwardsStreamErrors = True, now = 1672540000000 \<rparr>"

definition ex_db :: database where
  "ex_db = \<lparr> historical_events = [], staging_events = [], job = new_job ''events.txt'' \<rparr>"

definition id_A :: uuid where "id_A = ''aaaaaaaa-0000-0000-0000-000000000001''"
definition id_B :: uuid where "id_B = ''bbbbbbbb-0000-0000-0000-000000000002''"
definition id_C :: uuid where "id_C = ''cccccccc-0000-0000-0000-000000000003''"
definition id_D :: uuid where "id_D = ''dddddddd-0000-0000-0000-000000000004''"

definition ex_line :: "uuid \<Rightarrow> string \<Rightarrow> string \<Rightarrow> string" where
  "ex_line i name parent =
     i @ ''|'' @ name @ ''|2023-01-01T00:00:00Z|2023-01-01T01:00:00Z|'' @ parent @ ''|1|text''"

definition line_A :: string where "line_A = ex_line id_A ''A'' ''NULL''"
definition line_B :: string where "line_B = ex_line id_B ''B'' id_A"
definition line_C :: string where "line_C = ex_line id_C ''C'' id_B"
definition line_D :: string where "line_D = ex_line id_D ''D'' id_C"

definition id_E :: uuid where "id_E = ''eeeeeeee-0000-0000-0000-000000000005''"

definition line_E :: string where "line_E = ex_line id_E ''E'' ''NULL''"


text \<open>A job on the empty database, reading a file to its end.\<close>

definition ex_run :: "string list \<Rightarrow> database" where
  "ex_run ls = fst (processFile ex_env ''events.txt'' \<lparr> lines = ls, io_error = None \<rparr> ex_db)"

text \<open>The counters as \<^verbatim>\<open>processFile\<close> declares them (lines 23--25).\<close>

definition loop_start :: loop_state where
  "loop_start = \<lparr> lineNumber = 0, localErrorCount = 0, localSuccessCount = 0 \<rparr>"

text \<open>The database when the \<^verbatim>\<open>for await\<close> loop has consumed every line of the stream.\<close>

definition afterLines :: "env \<Rightarrow> string \<Rightarrow> file_stream \<Rightarrow> database \<Rightarrow> database" where
  "afterLines e filePath input db =
     fst (readLines e filePath (db\<lparr> job := (job db)\<lparr> status := PROCESSING \<rparr> \<rparr>, loop_start)
            (lines input))"

text \<open>A file whose forward references are two levels deep: C, then its parent B, then A.\<close>

definition ex_two_levels :: file_stream where
  "ex_two_levels = \<lparr> lines = [line_C, line_B, line_A], io_error = None \<rparr>"

text \<open>The primary keys of the two event tables: no ID twice in either.\<close>

definition keys_distinct :: "database \<Rightarrow> bool" where
  "keys_distinct db =
     (distinct (map event_id (historical_events db)) \<and> distinct (map event_id (staging_events db)))"

text \<open>The first statement of the job fails.\<close>

definition ex_env_down :: env where
  "ex_env_down = ex_env\<lparr> markProcessingError := Some ''connection refused'' \<rparr>"

text \<open>A runtime that does not raise stream errors inside the loop.\<close>

definition ex_env_unforwarded :: env where
  "ex_env_unforwarded = ex_env\<lparr> forwardsStreamErrors := False \<rparr>"

text \<open>A file that cannot be opened: no line is delivered.\<close>

definition ex_unreadable :: file_stream where
  "ex_unreadable = \<lparr> lines = [], io_error = Some ''EACCES: permission denied'' \<rparr>"

text \<open>The file A(parent=none), C(parent=B), B(parent=A).\<close>

definition ex_forward :: file_stream where
  "ex_forward = \<lparr> lines = [line_A, line_C, line_B], io_error = None \<rparr>"

section \<open>Analytics on query results (insight service)\<close>

text \<open>
  Each function takes the rows its query returned. The rows of one result are rows of
  \<^verbatim>\<open>historical_events\<close>, of which the functions read the selected columns only; two rows
  of one result differ in \<^verbatim>\<open>event_id\<close>, so the identity of a row object is the equality
  of rows. Instants are \<^verbatim>\<open>getTime()\<close> values, in milliseconds.
\<close>

subsection \<open>\<^verbatim>\<open>findTemporalGaps\<close>\<close>

text \<open>\<^verbatim>\<open>{ event_id, event_name, end_date }\<close> and \<^verbatim>\<open>{ event_id, event_name, start_date }\<close>.\<close>

type_synonym gap_bound = "uuid \<times> string \<times> int"

record largest_gap =
  durationMinutes :: int
  startOfGap :: "int option"
  endOfGap :: "int option"
  precedingEvent :: "gap_bound option"
  succeedingEvent :: "gap_bound option"

record gap_result =
  largestGap :: "largest_gap option"
  gap_message :: string

definition no_gap :: gap_result where
  "no_gap = \<lparr> largestGap = None,
       gap_message = ''No significant temporal gaps found within the specified range, or too few events.'' \<rparr>"

text \<open>The body of the loop (lines 96--121) for one consecutive pair.\<close>

definition gap_step :: "largest_gap \<Rightarrow> event \<Rightarrow> event \<Rightarrow> largest_gap" where
  "gap_step best precedingEv succeedingEv =
     (let gapStart = end_date precedingEv; gapEnd = start_date succeedingEv;
          gapDurationMs = gapEnd - gapStart
      in if gapDurationMs > durationMinutes best * 60 * 1000 then
           \<lparr> durationMinutes = gapDurationMs div (1000 * 60),
             startOfGap = Some gapStart, endOfGap = Some gapEnd,
             precedingEvent = Some (event_id precedingEv, event_name precedingEv, end_date precedingEv),
             succeedingEvent =
               Some (event_id succeedingEv, event_name succeedingEv, start_date succeedingEv) \<rparr>
         else best)"

text \<open>\<^verbatim>\<open>for (let i = 0; i < events.length - 1; i++)\<close> on \<^verbatim>\<open>events[i]\<close>, \<^verbatim>\<open>events[i+1]\<close>.\<close>

fun gap_loop :: "largest_gap \<Rightarrow> event list \<Rightarrow> largest_gap" where
  "gap_loop best (p # s # rest) = gap_loop (gap_step best p s) (s # rest)"
| "gap_loop best rest = best"

definition findTemporalGaps :: "event list \<Rightarrow> gap_result" where
  "findTemporalGaps events =
     (if length events < 2 then no_gap
      else
        let best = gap_loop \<lparr> durationMinutes = 0, startOfGap = None, endOfGap = None,
                              precedingEvent = None, succeedingEvent = None \<rparr> events
        in if durationMinutes best > 0
           then \<lparr> largestGap = Some best, gap_message = ''Largest temporal gap identified.'' \<rparr>
           else no_gap)"

text \<open>The pairs \<^verbatim>\<open>events[i]\<close>, \<^verbatim>\<open>events[i+1]\<close> and the gap between them, in milliseconds.\<close>

definition consecutive :: "event list \<Rightarrow> (event \<times> event) list" where
  "consecutive events = zip events (tl events)"

definition gap_ms :: "event \<times> event \<Rightarrow> int" where
  "gap_ms pr = start_date (snd pr) - end_date (fst pr)"

text \<open>A row with the columns the analytics read; the others are of no account.\<close>

definition ex_row :: "uuid \<Rightarrow> string \<Rightarrow> int \<Rightarrow> int \<Rightarrow> event" where
  "ex_row i name s e =
     \<lparr> event_id = i, event_name = name, description = [], start_date = s, end_date = e,
       duration_minutes = (e - s + 30000) div 60000, parent_event_id = None,
       metadata = ([], 0, []) \<rparr>"

text \<open>An instant \<open>m\<close> minutes after 2023-01-01T00:00:00Z.\<close>

definition minutes :: "int \<Rightarrow> int" where
  "minutes m = 1672531200000 + m * 60000"

text \<open>The \<^verbatim>\<open>largestGap\<close> object built from one consecutive pair (lines 106--120).\<close>

definition gap_of :: "event \<times> event \<Rightarrow> largest_gap" where
  "gap_of pr =
     \<lparr> durationMinutes = gap_ms pr div 60000,
       startOfGap = Some (end_date (fst pr)), endOfGap = Some (start_date (snd pr)),
       precedingEvent = Some (event_id (fst pr), event_name (fst pr), end_date (fst pr)),
       succeedingEvent = Some (event_id (snd pr), event_name (snd pr), start_date (snd pr)) \<rparr>"

text \<open>The initial \<^verbatim>\<open>largestGap\<close> (lines 87--93).\<close>

definition gap_init :: largest_gap where
  "gap_init = \<lparr> durationMinutes = 0, startOfGap = None, endOfGap = None,
                 precedingEvent = None, succeedingEvent = None \<rparr>"

definition ex_gap_rows :: "event list" where
  "ex_gap_rows = [ex_row id_A ''A'' (minutes 0) (minutes 10), ex_row id_B ''B'' (minutes 30) (minutes 40)]"

definition ex_half_minute_rows :: "event list" where
  "ex_half_minute_rows =
     [ex_row id_A ''A'' (minutes 0) (minutes 10),
      ex_row id_B ''B'' (minutes 10 + 30000) (minutes 40)]"

subsection \<open>\<^verbatim>\<open>findOverlappingEvents\<close>\<close>

datatype point_type = Start | End

record point =
  time :: int
  type :: point_type
  event :: event

definition start_point :: "event \<Rightarrow> point" where
  "start_point ev = \<lparr> time = start_date ev, type = Start, event = ev \<rparr>"

definition end_point :: "event \<Rightarrow> point" where
  "end_point ev = \<lparr> time = end_date ev, type = End, event = ev \<rparr>"

text \<open>Lines 17--21: one start point and one end point for each row.\<close>

definition points_of :: "event list \<Rightarrow> point list" where
  "points_of events = concat (map (\<lambda>ev. [start_point ev, end_point ev]) events)"

text \<open>
  The comparator of line 23, \<^verbatim>\<open>a.time - b.time || (a.type === 'start' ? -1 : 1)\<close>. On two
  points of one instant and one type it answers the same in both orders.
\<close>

definition comparePoints :: "point \<Rightarrow> point \<Rightarrow> int" where
  "comparePoints a b =
     (if time a - time b \<noteq> 0 then time a - time b
      else if type a = Start then - 1 else 1)"

text \<open>\<^verbatim>\<open>{ event_id, event_name, start_date, end_date }\<close>.\<close>

type_synonym event_summary = "uuid \<times> string \<times> int \<times> int"

definition summary :: "event \<Rightarrow> event_summary" where
  "summary ev = (event_id ev, event_name ev, start_date ev, end_date ev)"

record overlap =
  overlappingEventPairs :: "event_summary list"
  overlap_duration_minutes :: int

text \<open>
  \<^verbatim>\<open>[x, y].sort().join('|')\<close>: the default sort puts the smaller string first, in the
  lexicographic order of the characters.
\<close>

definition pairKey :: "uuid \<Rightarrow> uuid \<Rightarrow> string" where
  "pairKey x y = (if x \<le> y then x @ CHR ''|'' # y else y @ CHR ''|'' # x)"

record sweep_state =
  overlappingPairs :: "overlap list"
  activeEvents :: "event list"
  reportedPairs :: "string set"

text \<open>
  The inner loop (lines 31--60): the event of a start point against the active events,
  in the order in which they became active.
\<close>

fun pair_with :: "event \<Rightarrow> event list \<Rightarrow> overlap list \<times> string set \<Rightarrow> overlap list \<times> string set" where
  "pair_with pev [] acc = acc"
| "pair_with pev (activeEvent # rest) acc =
     pair_with pev rest
       (case acc of (pairs, reported) \<Rightarrow>
          (let key = pairKey (event_id pev) (event_id activeEvent) in
           if key \<notin> reported then
             (let overlapStart = max (start_date pev) (start_date activeEvent);
                  overlapEnd = min (end_date pev) (end_date activeEvent);
                  overlapDurationMinutes = (overlapEnd - overlapStart) div (1000 * 60)
              in if overlapDurationMinutes > 0 then
                   (pairs @ [\<lparr> overlappingEventPairs = [summary pev, summary activeEvent],
                               overlap_duration_minutes = overlapDurationMinutes \<rparr>],
                    insert key reported)
                 else (pairs, reported))
           else (pairs, reported)))"

text \<open>One point of the sweep (lines 29--65); the active events are a \<^verbatim>\<open>Set\<close>.\<close>

definition sweep_step :: "sweep_state \<Rightarrow> point \<Rightarrow> sweep_state" where
  "sweep_step st p =
     (if type p = Start then
        (case pair_with (event p) (activeEvents st) (overlappingPairs st, reportedPairs st) of
           (pairs, reported) \<Rightarrow>
             \<lparr> overlappingPairs = pairs,
               activeEvents = (if event p \<in> set (activeEvents st) then activeEvents st
                               else activeEvents st @ [event p]),
               reportedPairs = reported \<rparr>)
      else st\<lparr> activeEvents := removeAll (event p) (activeEvents st) \<rparr>)"

fun sweep :: "sweep_state \<Rightarrow> point list \<Rightarrow> sweep_state" where
  "sweep st [] = st"
| "sweep st (p # ps) = sweep (sweep_step st p) ps"

text \<open>
  \<^verbatim>\<open>Array.prototype.sort\<close> belongs to the engine and is the parameter \<open>srt\<close>; the function
  takes the rows of \<^verbatim>\<open>getEventsInRange\<close>.
\<close>

definition findOverlappingEvents ::
  "((point \<Rightarrow> point \<Rightarrow> int) \<Rightarrow> point list \<Rightarrow> point list) \<Rightarrow> event list \<Rightarrow> overlap list" where
  "findOverlappingEvents srt events =
     (if length events < 2 then []
      else overlappingPairs
             (sweep \<lparr> overlappingPairs = [], activeEvents = [], reportedPairs = {} \<rparr>
                (srt comparePoints (points_of events))))"

text \<open>
  What a sort gives on this comparator: the points of the input, none of them behind a
  point that the comparator puts after it in both orders of asking.
\<close>

definition sorts :: "((point \<Rightarrow> point \<Rightarrow> int) \<Rightarrow> point list \<Rightarrow> point list) \<Rightarrow> point list \<Rightarrow> bool" where
  "sorts srt ps =
     (mset (srt comparePoints ps) = mset ps \<and>
      sorted_wrt (\<lambda>a b. \<not> (comparePoints b a < 0 \<and> 0 < comparePoints a b))
        (srt comparePoints ps))"

text \<open>A sort the engine may run: insertion, stable.\<close>

fun insert_by :: "('a \<Rightarrow> 'a \<Rightarrow> int) \<Rightarrow> 'a \<Rightarrow> 'a list \<Rightarrow> 'a list" where
  "insert_by cmp x [] = [x]"
| "insert_by cmp x (y # ys) = (if cmp x y \<le> 0 then x # y # ys else y # insert_by cmp x ys)"

definition insertion_sort :: "('a \<Rightarrow> 'a \<Rightarrow> int) \<Rightarrow> 'a list \<Rightarrow> 'a list" where
  "insertion_sort cmp xs = foldr (insert_by cmp) xs []"

text \<open>The overlap of two rows in whole minutes (lines 35--37), and the IDs of a reported pair.\<close>

definition overlapMinutes :: "event \<Rightarrow> event \<Rightarrow> int" where
  "overlapMinutes a b =
     (min (end_date a) (end_date b) - max (start_date a) (start_date b)) div 60000"

definition pair_ids :: "overlap \<Rightarrow> uuid set" where
  "pair_ids r = set (map fst (overlappingEventPairs r))"

definition ex_overlap_rows :: "event list" where
  "ex_overlap_rows = [ex_row id_A ''A'' (minutes 0) (minutes 30), ex_row id_B ''B'' (minutes 20) (minutes 50)]"

definition ex_touching_rows :: "event list" where
  "ex_touching_rows = [ex_row id_A ''A'' (minutes 0) (minutes 10), ex_row id_B ''B'' (minutes 10) (minutes 20)]"

text \<open>The entry pushed for the event of a start point and an active event (lines 40--56).\<close>

definition entry :: "event \<Rightarrow> event \<Rightarrow> overlap" where
  "entry pev activeEvent =
     \<lparr> overlappingEventPairs = [summary pev, summary activeEvent],
       overlap_duration_minutes = overlapMinutes pev activeEvent \<rparr>"

text \<open>
  The rows \<open>a\<close>, \<open>b\<close> of \<open>E\<close> have both started within the points \<open>pre\<close> and overlap by a
  whole minute or more.
\<close>

definition ovl :: "event set \<Rightarrow> point list \<Rightarrow> event \<Rightarrow> event \<Rightarrow> bool" where
  "ovl E pre a b =
     (a \<in> E \<and> b \<in> E \<and> a \<noteq> b \<and> start_point a \<in> set pre \<and> start_point b \<in> set pre
      \<and> 0 < overlapMinutes a b)"

text \<open>The state of the sweep when the points \<open>pre\<close> have been handled.\<close>

definition sweep_inv :: "event set \<Rightarrow> point list \<Rightarrow> sweep_state \<Rightarrow> bool" where
  "sweep_inv E pre st =
     (distinct (activeEvents st) \<and>
      set (activeEvents st) = {e \<in> E. start_point e \<in> set pre \<and> end_point e \<notin> set pre} \<and>
      reportedPairs st = {k. \<exists>a b. ovl E pre a b \<and> k = pairKey (event_id a) (event_id b)} \<and>
      distinct (map pair_ids (overlappingPairs st)) \<and>
      pair_ids ` set (overlappingPairs st)
        = {s. \<exists>a b. ovl E pre a b \<and> s = {event_id a, event_id b}} \<and>
      (\<forall>r \<in> set (overlappingPairs st). \<exists>a b. a \<in> E \<and> b \<in> E \<and> a \<noteq> b \<and> r = entry a b))"

subsection \<open>\<^verbatim>\<open>findEventInfluencePath\<close>\<close>

text \<open>
  The rows are those of \<^verbatim>\<open>getEventDescendants(sourceEventId)\<close>. An ID is a UUID, never the
  empty string, so the tests \<^verbatim>\<open>if (event.parent_event_id)\<close> and \<^verbatim>\<open>while (currentId)\<close> tell
  \<^verbatim>\<open>null\<close> and \<^verbatim>\<open>undefined\<close> from a value. \<^verbatim>\<open>{ event_id, event_name, duration_minutes }\<close>:
\<close>

type_synonym node = "uuid \<times> string \<times> int"

definition node_of :: "event \<Rightarrow> node" where
  "node_of ev = (event_id ev, event_name ev, duration_minutes ev)"

text \<open>Lines 149--163: a later row of one ID replaces the earlier; children in row order.\<close>

definition buildEventMap :: "event list \<Rightarrow> (uuid \<rightharpoonup> node)" where
  "buildEventMap rows = foldl (\<lambda>m ev. m(event_id ev \<mapsto> node_of ev)) Map.empty rows"

text \<open>\<^verbatim>\<open>childrenMap.get(u) || []\<close> is the value of the function at \<open>u\<close>.\<close>

definition buildChildrenMap :: "event list \<Rightarrow> (uuid \<Rightarrow> uuid list)" where
  "buildChildrenMap rows =
     foldl (\<lambda>m ev. case parent_event_id ev of
                      None \<Rightarrow> m
                    | Some p \<Rightarrow> m(p := m p @ [event_id ev]))
           (\<lambda>u. []) rows"

text \<open>A distance: a number of minutes or \<^verbatim>\<open>Infinity\<close>, with \<^verbatim>\<open>+\<close> and \<^verbatim>\<open><\<close> on them.\<close>

datatype distance = Finite int | Infinity

fun plus_minutes :: "distance \<Rightarrow> int \<Rightarrow> distance" where
  "plus_minutes (Finite a) d = Finite (a + d)"
| "plus_minutes Infinity d = Infinity"

fun less_distance :: "distance \<Rightarrow> distance \<Rightarrow> bool" where
  "less_distance (Finite a) (Finite b) = (a < b)"
| "less_distance (Finite a) Infinity = True"
| "less_distance Infinity b = False"

text \<open>
  The state of the search. Every key that the loop looks up in \<^verbatim>\<open>distances\<close> is a key of
  \<^verbatim>\<open>eventMap\<close>, which line 181 gave the value \<^verbatim>\<open>Infinity\<close>, or the source; \<open>distances\<close> is
  \<^verbatim>\<open>Infinity\<close> on the keys that are never looked up as well. \<open>pq\<close> is a \<^verbatim>\<open>Set\<close>, in insertion
  order.
\<close>

record search =
  distances :: "uuid \<Rightarrow> distance"
  previousNodes :: "uuid \<rightharpoonup> uuid"
  pq :: "uuid list"

text \<open>Lines 186--191: the first member of \<open>pq\<close> of least distance; \<open>None\<close> is \<^verbatim>\<open>null\<close>.\<close>

fun pick :: "(uuid \<Rightarrow> distance) \<Rightarrow> uuid option \<Rightarrow> uuid list \<Rightarrow> uuid option" where
  "pick d u [] = u"
| "pick d u (eventId # rest) =
     pick d (case u of
               None \<Rightarrow> Some eventId
             | Some y \<Rightarrow> if less_distance (d eventId) (d y) then Some eventId else Some y) rest"

text \<open>
  \<^verbatim>\<open>eventMap.get(v).duration_minutes\<close> for a child \<open>v\<close>: a child is the ID of a row, hence a
  key of \<^verbatim>\<open>eventMap\<close>.
\<close>

definition duration_at :: "(uuid \<rightharpoonup> node) \<Rightarrow> uuid \<Rightarrow> int" where
  "duration_at eventMap v = (case eventMap v of Some (i, n, d) \<Rightarrow> d | None \<Rightarrow> 0)"

text \<open>Lines 196--203: the children of \<open>u\<close>, one after the other.\<close>

fun relax :: "(uuid \<rightharpoonup> node) \<Rightarrow> uuid \<Rightarrow> search \<Rightarrow> uuid list \<Rightarrow> search" where
  "relax eventMap u st [] = st"
| "relax eventMap u st (v # rest) =
     relax eventMap u
       (let alt = plus_minutes (distances st u) (duration_at eventMap v) in
        if less_distance alt (distances st v) then
          st\<lparr> distances := (distances st)(v := alt),
              previousNodes := (previousNodes st)(v \<mapsto> u),
              pq := (if v \<in> set (pq st) then pq st else pq st @ [v]) \<rparr>
        else st)
       rest"

text \<open>The \<^verbatim>\<open>while (pq.size > 0)\<close> loop (lines 185--204); not returning is \<open>None\<close>.\<close>

partial_function (option) dijkstra ::
  "(uuid \<rightharpoonup> node) \<Rightarrow> (uuid \<Rightarrow> uuid list) \<Rightarrow> uuid \<Rightarrow> search \<Rightarrow> search option" where
  "dijkstra eventMap childrenMap targetEventId st =
     (case pick (distances st) None (pq st) of
        None \<Rightarrow> Some st
      | Some u \<Rightarrow>
          (let st1 = st\<lparr> pq := removeAll u (pq st) \<rparr> in
           if u = targetEventId then Some st1
           else dijkstra eventMap childrenMap targetEventId
                  (relax eventMap u st1 (childrenMap u))))"

declare dijkstra.simps [code]

text \<open>
  The \<^verbatim>\<open>while (currentId)\<close> loop (lines 209--212), entered with a defined \<open>currentId\<close>;
  \<^verbatim>\<open>eventMap.get\<close> may answer \<^verbatim>\<open>undefined\<close>, which is \<open>None\<close> in the path.
\<close>

partial_function (option) walk ::
  "(uuid \<rightharpoonup> node) \<Rightarrow> (uuid \<rightharpoonup> uuid) \<Rightarrow> uuid \<Rightarrow> node option list \<Rightarrow> node option list option" where
  "walk eventMap previous currentId path =
     (case previous currentId of
        None \<Rightarrow> Some (eventMap currentId # path)
      | Some p \<Rightarrow> walk eventMap previous p (eventMap currentId # path))"

declare walk.simps [code]

record influence =
  sourceEventId :: uuid
  targetEventId :: uuid
  shortestPath :: "node option list"
  totalDurationMinutes :: distance
  path_message :: string

datatype path_result = Message string | Influence influence

definition no_path :: "uuid \<Rightarrow> uuid \<Rightarrow> path_result" where
  "no_path source target =
     Influence \<lparr> sourceEventId = source, targetEventId = target, shortestPath = [],
                 totalDurationMinutes = Finite 0,
                 path_message = ''No temporal path found from source to target event.'' \<rparr>"

text \<open>
  The whole function, on the rows of the query. The outer \<open>option\<close> is \<open>None\<close> when a loop
  does not return; \<open>Inl\<close> is the \<^verbatim>\<open>TypeError\<close> of reading a property of \<^verbatim>\<open>undefined\<close>.
\<close>

definition findEventInfluencePath ::
  "event list \<Rightarrow> uuid \<Rightarrow> uuid \<Rightarrow> (js_error + path_result) option" where
  "findEventInfluencePath events source target =
     (if events = [] then Some (Inr (Message ''Source event not found.''))
      else
        let eventMap = buildEventMap events; childrenMap = buildChildrenMap events in
        if eventMap target = None then Some (Inr (no_path source target))
        else
          (case eventMap source of
             None \<Rightarrow> Some (Inl (Error ''Cannot read properties of undefined''))
           | Some (i, n, d) \<Rightarrow>
               (case dijkstra eventMap childrenMap target
                       \<lparr> distances = (\<lambda>u. Infinity)(source := Finite d),
                         previousNodes = Map.empty, pq = [source] \<rparr> of
                  None \<Rightarrow> None
                | Some st \<Rightarrow>
                    (case (if previousNodes st target \<noteq> None \<or> target = source
                           then walk eventMap (previousNodes st) target []
                           else Some []) of
                       None \<Rightarrow> None
                     | Some path \<Rightarrow>
                         (case path of
                            [] \<Rightarrow> Some (Inr (no_path source target))
                          | None # rest \<Rightarrow> Some (Inl (Error ''Cannot read properties of undefined''))
                          | Some first # rest \<Rightarrow>
                              if fst first = source then
                                Some (Inr (Influence
                                  \<lparr> sourceEventId = source, targetEventId = target,
                                    shortestPath = path,
                                    totalDurationMinutes = distances st target,
                                    path_message =
                                      ''Shortest temporal path found from source to target event.'' \<rparr>))
                              else Some (Inr (no_path source target)))))))"

text \<open>The tree A(30 minutes) -> B(10) -> C(5) as the rows of the descendants of A.\<close>

definition ex_tree_row :: "uuid \<Rightarrow> string \<Rightarrow> int \<Rightarrow> uuid option \<Rightarrow> event" where
  "ex_tree_row i name d parent =
     \<lparr> event_id = i, event_name = name, description = [], start_date = minutes 0,
       end_date = minutes d, duration_minutes = d, parent_event_id = parent,
       metadata = ([], 0, []) \<rparr>"

definition ex_tree :: "event list" where
  "ex_tree = [ex_tree_row id_A ''A'' 30 None, ex_tree_row id_B ''B'' 10 (Some id_A),
              ex_tree_row id_C ''C'' 5 (Some id_B)]"

text \<open>
  A chain of rows, each the child of the next; an influence path from \<open>source\<close> to \<open>target\<close>
  is a chain read backwards, and its cost the sum of the durations of its rows, the
  source's own included.
\<close>

fun chain :: "event list \<Rightarrow> event list \<Rightarrow> bool" where
  "chain rows [] = False"
| "chain rows [r] = (r \<in> set rows)"
| "chain rows (r # q # rest) =
     (r \<in> set rows \<and> parent_event_id r = Some (event_id q) \<and> chain rows (q # rest))"

definition cost :: "event list \<Rightarrow> int" where
  "cost p = sum_list (map duration_minutes p)"

definition influence_path :: "event list \<Rightarrow> uuid \<Rightarrow> uuid \<Rightarrow> event list \<Rightarrow> bool" where
  "influence_path rows source target p =
     (chain rows (rev p) \<and> event_id (hd p) = source \<and> event_id (last p) = target)"

text \<open>The nodes that have a distance, and those of them that have left \<open>pq\<close>.\<close>

definition discovered :: "search \<Rightarrow> uuid set" where
  "discovered st = {v. distances st v \<noteq> Infinity}"

definition settled :: "search \<Rightarrow> uuid set" where
  "settled st = discovered st - set (pq st)"

text \<open>What holds of the state of the search at the head of the loop.\<close>

definition search_inv :: "event list \<Rightarrow> uuid \<Rightarrow> search \<Rightarrow> bool" where
  "search_inv rows source st =
     (distinct (pq st) \<and> set (pq st) \<subseteq> discovered st \<and> source \<in> discovered st \<and>
      discovered st \<subseteq> event_id ` set rows \<and>
      (\<forall>v. v \<notin> discovered st \<longrightarrow> previousNodes st v = None) \<and>
      (\<forall>r \<in> set rows. event_id r \<in> discovered st \<longrightarrow>
         previousNodes st (event_id r)
           = (if event_id r = source then None else parent_event_id r) \<and>
         (event_id r \<noteq> source \<longrightarrow> (\<exists>u \<in> settled st. parent_event_id r = Some u))) \<and>
      (\<forall>v \<in> discovered st. \<exists>c. chain rows c \<and> event_id (hd c) = v \<and>
         event_id (last c) = source \<and> distances st v = Finite (cost c) \<and>
         event_id ` set c \<subseteq> discovered st))"

definition closed :: "event list \<Rightarrow> search \<Rightarrow> bool" where
  "closed rows st =
     (\<forall>r \<in> set rows. \<forall>u \<in> settled st. parent_event_id r = Some u \<longrightarrow> event_id r \<in> discovered st)"

section \<open>Properties of the parser\<close>

text \<open>
  C3 (the code departs from the claim). A line whose description holds the delimiter
  splits into eight parts. The count of parts is tested before the parts after the
  sixth are rejoined, so the line is rejected with the field-count error; the claim has
  it accepted with the description \<^verbatim>\<open>text|more\<close>.
\<close>

theorem C3_delimiter_in_description_is_rejected:
  "parseLine pd filePath n
     ''aaaaaaaa-0000-0000-0000-000000000001|A|2023-01-01T00:00:00Z|2023-01-01T01:00:00Z|NULL|1|text|more''
   = Inl (Error ''Invalid number of fields. Expected 7, got 8.'')"
proof -
  have n: "show_nat 8 = ''8''" by code_simp
  have l: "length (split_pipe
     ''aaaaaaaa-0000-0000-0000-000000000001|A|2023-01-01T00:00:00Z|2023-01-01T01:00:00Z|NULL|1|text|more'') = 8"
    by simp
  show ?thesis
    by (simp only: parseLine_def Let_def l n) simp
qed

section \<open>Properties of the ingestion job\<close>

lemma insertEvent_job: "insertEvent e ev db = Inr db' \<Longrightarrow> job db' = job db"
  by (auto simp: insertEvent_def Let_def split: option.splits if_splits)

lemma insertStaging_job: "job (insertStaging ev db) = job db"
  by (simp add: insertStaging_def Let_def)

lemma deferredQuery_job: "deferredQuery db = Inr db' \<Longrightarrow> job db' = job db"
  by (auto simp: deferredQuery_def Let_def split: if_splits)

lemma processLine_counts:
  assumes "processLine e fp (db, ls) line = (db', ls')"
  shows "lineNumber ls' = lineNumber ls + 1"
    and "localSuccessCount ls' + localErrorCount ls'
           = localSuccessCount ls + localErrorCount ls + 1"
    and "error_lines (job db') + localErrorCount ls = error_lines (job db) + localErrorCount ls'"
    and "status (job db') = status (job db)"
  using assms
  by (auto simp: processLine_def catchLine_def Let_def insertStaging_job
           dest: insertEvent_job split: sum.splits option.splits if_splits)

lemma readLines_counts:
  "readLines e fp (db, ls) input = (db', ls') \<Longrightarrow>
     lineNumber ls' = lineNumber ls + length input \<and>
     localSuccessCount ls' + localErrorCount ls'
       = localSuccessCount ls + localErrorCount ls + length input \<and>
     error_lines (job db') + localErrorCount ls = error_lines (job db) + localErrorCount ls' \<and>
     status (job db') = status (job db)"
proof (induction input arbitrary: db ls)
  case Nil
  then show ?case by simp
next
  case (Cons l rest)
  obtain db1 ls1 where s: "processLine e fp (db, ls) l = (db1, ls1)"
    by (cases "processLine e fp (db, ls) l")
  with Cons.prems have r: "readLines e fp (db1, ls1) rest = (db', ls')" by simp
  from Cons.IH[OF r] processLine_counts[OF s] show ?case by simp
qed

text \<open>
  C10. A job that reaches \<^verbatim>\<open>COMPLETED\<close>, started on a job row whose error counter is
  zero (as \<^verbatim>\<open>createIngestionJob\<close> leaves it), has counted every line of the file once:
  \<open>processed_lines + error_lines = total_lines\<close>, and \<open>total_lines\<close> is the number of
  lines read. A line that is staged because its parent is missing adds to
  \<open>processed_lines\<close>.
\<close>

theorem C10_completed_job_counts_each_line_once:
  assumes "error_lines (job db) = 0"
    and "status (job (fst (processFile e fp input db))) = COMPLETED"
  shows "processed_lines (job (fst (processFile e fp input db)))
           + error_lines (job (fst (processFile e fp input db)))
         = total_lines (job (fst (processFile e fp input db)))
         \<and> total_lines (job (fst (processFile e fp input db))) = length (lines input)"
proof -
  let ?db1 = "db\<lparr> job := (job db)\<lparr> status := PROCESSING \<rparr> \<rparr>"
  let ?start = "\<lparr> lineNumber = 0, localErrorCount = 0, localSuccessCount = 0 \<rparr>"
  obtain db' c where p: "processFile e fp input db = (db', c)"
    by (cases "processFile e fp input db")
  obtain db2 ls where r: "readLines e fp (?db1, ?start) (lines input) = (db2, ls)"
    by (cases "readLines e fp (?db1, ?start) (lines input)")
  note rc = readLines_counts[OF r]
  from rc have st2: "status (job db2) = PROCESSING" by simp
  from assms(2) p r st2 obtain db3 where
    d: "deferredQuery db2 = Inr db3" and f: "db' = finalUpdateQuery e ls db3"
    by (auto simp: processFile_def Let_def catchFatal_def
             split: option.splits if_splits sum.splits)
  from deferredQuery_job[OF d] f rc assms(1) p show ?thesis
    by (simp add: finalUpdateQuery_def)
qed

theorem C10_witness:
  "error_lines (job ex_db) = 0
   \<and> status (job (fst (processFile ex_env ''events.txt''
        \<lparr> lines = [line_A, line_C, ''no delimiter''], io_error = None \<rparr> ex_db))) = COMPLETED
   \<and> processed_lines (job (fst (processFile ex_env ''events.txt''
        \<lparr> lines = [line_A, line_C, ''no delimiter''], io_error = None \<rparr> ex_db))) = 2
   \<and> error_lines (job (fst (processFile ex_env ''events.txt''
        \<lparr> lines = [line_A, line_C, ''no delimiter''], io_error = None \<rparr> ex_db))) = 1
   \<and> total_lines (job (fst (processFile ex_env ''events.txt''
        \<lparr> lines = [line_A, line_C, ''no delimiter''], io_error = None \<rparr> ex_db))) = 3"
proof -
  let ?input = "\<lparr> lines = [line_A, line_C, ''no delimiter''], io_error = None \<rparr>"
  let ?j = "job (fst (processFile ex_env ''events.txt'' ?input ex_db))"
  have h1: "error_lines (job ex_db) = 0" by code_simp
  have h2: "status ?j = COMPLETED" by code_simp
  have p: "processed_lines ?j = 2" by code_simp
  have e: "error_lines ?j = 1" by code_simp
  from C10_completed_job_counts_each_line_once[OF h1 h2] h1 h2 p e show ?thesis by simp
qed



lemma processFile_status:
  "status (job (fst (processFile e fp input db))) =
     (if markProcessingError e \<noteq> None then PENDING
      else if io_error input \<noteq> None then (if forwardsStreamErrors e then FAILED else PROCESSING)
      else if isl (deferredQuery (afterLines e fp input db)) then FAILED
      else COMPLETED)"
proof -
  let ?db1 = "db\<lparr> job := (job db)\<lparr> status := PROCESSING \<rparr> \<rparr>"
  obtain db2 ls where r: "readLines e fp (?db1, loop_start) (lines input) = (db2, ls)"
    by (cases "readLines e fp (?db1, loop_start) (lines input)")
  from readLines_counts[OF r] have st2: "status (job db2) = PROCESSING" by simp
  from r have a: "afterLines e fp input db = db2" by (simp add: afterLines_def)
  show ?thesis
    using r st2 unfolding a
    by (auto simp: processFile_def Let_def catchFatal_def finalUpdateQuery_def
                   loop_start_def[symmetric]
             split: option.splits sum.splits)
qed

text \<open>
  C4 (as amended). The job is set to \<^verbatim>\<open>PROCESSING\<close> by the first statement of
  \<^verbatim>\<open>processFile\<close>, before the source stream is created. Only a failure of that statement
  leaves the job \<^verbatim>\<open>PENDING\<close>. Once it has succeeded the job ends \<^verbatim>\<open>COMPLETED\<close> when the
  stream ends and the promotion statement succeeds, \<^verbatim>\<open>FAILED\<close> when a failure reaches
  the handler of \<^verbatim>\<open>processFile\<close> (a stream error that the runtime raises in the loop, a
  key conflict in the promotion statement), and stays \<^verbatim>\<open>PROCESSING\<close> when a stream error
  is not raised in the loop. A job left \<^verbatim>\<open>PENDING\<close> or \<^verbatim>\<open>FAILED\<close> has a fatal error as its
  last recorded error; every job not left \<^verbatim>\<open>PROCESSING\<close> has its end time stamped.
\<close>

theorem C4_job_status_transitions:
  "status (job (fst (processFile e fp input db))) =
     (if markProcessingError e \<noteq> None then PENDING
      else if io_error input \<noteq> None then (if forwardsStreamErrors e then FAILED else PROCESSING)
      else if isl (deferredQuery (afterLines e fp input db)) then FAILED
      else COMPLETED)
   \<and> (status (job (fst (processFile e fp input db))) \<noteq> PROCESSING \<longrightarrow>
        end_time (job (fst (processFile e fp input db))) = Some (now e))
   \<and> (status (job (fst (processFile e fp input db))) \<in> {PENDING, FAILED} \<longrightarrow>
        (\<exists>pre m. errors (job (fst (processFile e fp input db))) = pre @ [''Fatal Error: '' @ m]))"
proof -
  let ?db1 = "db\<lparr> job := (job db)\<lparr> status := PROCESSING \<rparr> \<rparr>"
  obtain db2 ls where r: "readLines e fp (?db1, loop_start) (lines input) = (db2, ls)"
    by (cases "readLines e fp (?db1, loop_start) (lines input)")
  from readLines_counts[OF r] have st2: "status (job db2) = PROCESSING" by simp
  have "status (job (fst (processFile e fp input db))) \<noteq> PROCESSING \<longrightarrow>
        end_time (job (fst (processFile e fp input db))) = Some (now e)"
    using r st2
    by (auto simp: processFile_def Let_def catchFatal_def finalUpdateQuery_def
                   loop_start_def[symmetric]
             split: option.splits sum.splits)
  moreover have "status (job (fst (processFile e fp input db))) \<in> {PENDING, FAILED} \<longrightarrow>
        (\<exists>pre m. errors (job (fst (processFile e fp input db))) = pre @ [''Fatal Error: '' @ m])"
    using r st2
    by (auto simp: processFile_def Let_def catchFatal_def finalUpdateQuery_def
                   loop_start_def[symmetric]
             split: option.splits sum.splits)
  ultimately show ?thesis using processFile_status[of e fp input db] by blast
qed

theorem C4_witness:
  "status (job (fst (processFile ex_env_down ''events.txt'' ex_unreadable ex_db))) = PENDING
   \<and> end_time (job (fst (processFile ex_env_down ''events.txt'' ex_unreadable ex_db)))
       = Some (now ex_env_down)
   \<and> errors (job (fst (processFile ex_env_down ''events.txt'' ex_unreadable ex_db)))
       = [''Fatal Error: connection refused'']"
proof -
  have m: "markProcessingError ex_env_down \<noteq> None" by code_simp
  have e: "errors (job (fst (processFile ex_env_down ''events.txt'' ex_unreadable ex_db)))
             = [''Fatal Error: connection refused'']" by code_simp
  from C4_job_status_transitions[of ex_env_down "''events.txt''" ex_unreadable ex_db] m e
  show ?thesis by simp
qed

text \<open>
  C4 as stated fails: the stream of a file that cannot be opened fails before it has
  opened, the first statement having succeeded, and the job is left \<^verbatim>\<open>FAILED\<close> (or
  \<^verbatim>\<open>PROCESSING\<close>, when the runtime does not raise the error in the loop), not \<^verbatim>\<open>PENDING\<close>.
\<close>

theorem C4_counterexample:
  "markProcessingError ex_env = None
   \<and> lines ex_unreadable = []
   \<and> status (job (fst (processFile ex_env ''events.txt'' ex_unreadable ex_db))) = FAILED
   \<and> status (job (fst (processFile ex_env_unforwarded ''events.txt'' ex_unreadable ex_db)))
       = PROCESSING"
  by code_simp

lemma join_one:
  "distinct (map event_id hs) \<Longrightarrow>
   concat (map (\<lambda>h. if p = Some (event_id h) then [s] else []) hs)
     = (if \<exists>h\<in>set hs. p = Some (event_id h) then [s] else [])"
  by (induction hs) auto

lemma concat_if_filter: "concat (map (\<lambda>x. if P x then [x] else []) xs) = filter P xs"
  by (induction xs) auto

lemma first_part_filter:
  assumes "distinct (map event_id (historical_events db))"
  shows "first_part db =
           filter (\<lambda>s. \<exists>h\<in>set (historical_events db). parent_event_id s = Some (event_id h))
             (staging_events db)"
  unfolding first_part_def
  by (simp add: join_one[OF assms] concat_if_filter)

lemma second_part_filter:
  assumes "distinct (map event_id (first_part db))"
  shows "second_part db =
           filter (\<lambda>s. \<exists>f\<in>set (first_part db). parent_event_id s = Some (event_id f))
             (staging_events db)"
  unfolding second_part_def
  by (simp add: join_one[OF assms] concat_if_filter)

lemma distinct_ids_filter:
  "distinct (map event_id xs) \<Longrightarrow> distinct (map event_id (filter P xs))"
  by (simp add: distinct_map_filter)

lemma same_id_same_row:
  "distinct (map event_id xs) \<Longrightarrow> a \<in> set xs \<Longrightarrow> b \<in> set xs \<Longrightarrow> event_id a = event_id b \<Longrightarrow> a = b"
  by (meson distinct_map inj_onD)

lemma deferredQuery_two_pass:
  assumes dh: "distinct (map event_id (historical_events db))"
    and ds: "distinct (map event_id (staging_events db))"
    and disj: "ids (staging_events db) \<inter> ids (historical_events db) = {}"
  shows "\<exists>db'. deferredQuery db = Inr db'
          \<and> staging_events db' = staging_events db
          \<and> set (historical_events db') =
              set (historical_events db)
              \<union> {s \<in> set (staging_events db).
                   \<exists>h\<in>set (historical_events db). parent_event_id s = Some (event_id h)}
              \<union> {s \<in> set (staging_events db).
                   \<exists>f\<in>set (staging_events db). parent_event_id s = Some (event_id f)
                     \<and> (\<exists>h\<in>set (historical_events db). parent_event_id f = Some (event_id h))}"
proof -
  let ?h = "historical_events db" and ?s = "staging_events db"
  let ?P = "\<lambda>s. \<exists>h\<in>set ?h. parent_event_id s = Some (event_id h)"
  have f: "first_part db = filter ?P ?s" by (rule first_part_filter[OF dh])
  have df: "distinct (map event_id (first_part db))"
    unfolding f by (rule distinct_ids_filter[OF ds])
  let ?Q = "\<lambda>s. \<exists>f\<in>set (first_part db). parent_event_id s = Some (event_id f)"
  have s2: "second_part db = filter ?Q ?s" by (rule second_part_filter[OF df])
  have d2: "distinct (map event_id (second_part db))"
    unfolding s2 by (rule distinct_ids_filter[OF ds])
  have sub1: "set (first_part db) \<subseteq> set ?s" unfolding f by auto
  have sub2: "set (second_part db) \<subseteq> set ?s" unfolding s2 by auto
  have no_both: "a \<in> set (first_part db) \<Longrightarrow> a \<notin> set (second_part db)" for a
  proof
    assume a1: "a \<in> set (first_part db)" and a2: "a \<in> set (second_part db)"
    from a1 obtain h where h: "h \<in> set ?h" "parent_event_id a = Some (event_id h)"
      unfolding f by auto
    from a2 obtain g where g: "g \<in> set (first_part db)" "parent_event_id a = Some (event_id g)"
      unfolding s2 by auto
    from g(1) sub1 have "event_id g \<in> ids ?s" by (auto simp: ids_def)
    moreover from h g(2) have "event_id g \<in> ids ?h" by (auto simp: ids_def)
    ultimately show False using disj by auto
  qed
  have cross: "event_id ` set (first_part db) \<inter> event_id ` set (second_part db) = {}"
  proof (rule ccontr)
    assume "event_id ` set (first_part db) \<inter> event_id ` set (second_part db) \<noteq> {}"
    then obtain a b where ab: "a \<in> set (first_part db)" "b \<in> set (second_part db)"
        "event_id a = event_id b" by auto
    with sub1 sub2 same_id_same_row[OF ds] have "a = b" by blast
    with ab no_both show False by blast
  qed
  have dr: "distinct (map event_id (first_part db @ second_part db))"
    using df d2 cross by simp
  have fresh: "ids (first_part db @ second_part db) \<inter> ids ?h = {}"
    using sub1 sub2 disj by (auto simp: ids_def)
  let ?db' = "db\<lparr> historical_events := ?h @ first_part db @ second_part db \<rparr>"
  from dr fresh have ok: "deferredQuery db = Inr ?db'"
    by (simp add: deferredQuery_def Let_def)
  have "set (second_part db) = {s \<in> set ?s. \<exists>f\<in>set ?s. parent_event_id s = Some (event_id f)
                     \<and> (\<exists>h\<in>set ?h. parent_event_id f = Some (event_id h))}"
    unfolding s2 f by auto
  moreover have "set (first_part db) = {s \<in> set ?s. ?P s}" unfolding f by auto
  ultimately have "set (historical_events ?db') =
              set ?h \<union> {s \<in> set ?s. ?P s}
              \<union> {s \<in> set ?s. \<exists>f\<in>set ?s. parent_event_id s = Some (event_id f)
                     \<and> (\<exists>h\<in>set ?h. parent_event_id f = Some (event_id h))}"
    by (simp add: Un_assoc)
  with ok show ?thesis by (intro exI[of _ ?db']) simp
qed

lemma insertEvent_keys:
  "insertEvent e ev db = Inr db' \<Longrightarrow> keys_distinct db \<Longrightarrow> keys_distinct db'"
  by (auto simp: insertEvent_def keys_distinct_def ids_def Let_def split: option.splits if_splits)

lemma insertStaging_keys: "keys_distinct db \<Longrightarrow> keys_distinct (insertStaging ev db)"
  by (auto simp: insertStaging_def keys_distinct_def ids_def Let_def)

lemma processLine_keys:
  assumes "processLine e fp (db, ls) line = (db', ls')" and "keys_distinct db"
  shows "keys_distinct db'"
proof -
  have j: "keys_distinct (d\<lparr> job := j \<rparr>) = keys_distinct d" for d j
    by (simp add: keys_distinct_def)
  from assms show ?thesis
    by (auto simp: processLine_def catchLine_def Let_def j insertStaging_keys
             dest: insertEvent_keys split: sum.splits option.splits if_splits)
qed

lemma readLines_keys:
  "readLines e fp (db, ls) input = (db', ls') \<Longrightarrow> keys_distinct db \<Longrightarrow> keys_distinct db'"
proof (induction input arbitrary: db ls)
  case Nil
  then show ?case by simp
next
  case (Cons l rest)
  obtain db1 ls1 where s: "processLine e fp (db, ls) l = (db1, ls1)"
    by (cases "processLine e fp (db, ls) l")
  with Cons.prems have r: "readLines e fp (db1, ls1) rest = (db', ls')" by simp
  from Cons.IH[OF r] processLine_keys[OF s] Cons.prems(2) show ?case by simp
qed

lemma afterLines_keys:
  assumes "distinct (map event_id (historical_events db))"
    and "distinct (map event_id (staging_events db))"
  shows "distinct (map event_id (historical_events (afterLines e fp input db)))"
    and "distinct (map event_id (staging_events (afterLines e fp input db)))"
proof -
  let ?db1 = "db\<lparr> job := (job db)\<lparr> status := PROCESSING \<rparr> \<rparr>"
  obtain db2 ls where r: "readLines e fp (?db1, loop_start) (lines input) = (db2, ls)"
    by (cases "readLines e fp (?db1, loop_start) (lines input)")
  from assms have "keys_distinct ?db1" by (simp add: keys_distinct_def)
  from readLines_keys[OF r this] r
  show "distinct (map event_id (historical_events (afterLines e fp input db)))"
    and "distinct (map event_id (staging_events (afterLines e fp input db)))"
    by (simp_all add: afterLines_def keys_distinct_def)
qed

lemma processFile_promotes:
  assumes "markProcessingError e = None" and "io_error input = None"
    and "deferredQuery (afterLines e fp input db) = Inr db3"
  shows "status (job (fst (processFile e fp input db))) = COMPLETED"
    and "historical_events (fst (processFile e fp input db)) = historical_events db3"
    and "staging_events (fst (processFile e fp input db)) = staging_events db3"
proof -
  let ?db1 = "db\<lparr> job := (job db)\<lparr> status := PROCESSING \<rparr> \<rparr>"
  obtain db2 ls where r: "readLines e fp (?db1, loop_start) (lines input) = (db2, ls)"
    by (cases "readLines e fp (?db1, loop_start) (lines input)")
  from r have a: "afterLines e fp input db = db2" by (simp add: afterLines_def)
  from assms r show "status (job (fst (processFile e fp input db))) = COMPLETED"
    and "historical_events (fst (processFile e fp input db)) = historical_events db3"
    and "staging_events (fst (processFile e fp input db)) = staging_events db3"
    unfolding a
    by (simp_all add: processFile_def Let_def finalUpdateQuery_def loop_start_def[symmetric])
qed

text \<open>
  C1 (as amended). For every file read to its end by a job whose first statement
  succeeded, on tables whose primary keys hold: when the line stream is exhausted one
  promotion statement runs, in two passes. Provided no staged event ID is in the main
  store at that moment, the job completes, and the main store then holds exactly the
  events it held when the stream ended, the staged events whose parent was among them,
  and the staged events whose parent is a staged event of that first kind; no ID is
  stored twice, and the staging table is left as it is. Forward-reference chains are
  resolved up to two levels below a committed event. In particular the file
  A(parent=none), C(parent=B), B(parent=A), ingested into an empty database, commits
  all three events, counts three processed lines and records no error.
\<close>

theorem C1_two_pass_promotion:
  "(markProcessingError e = None \<and> io_error input = None
      \<and> distinct (map event_id (historical_events db))
      \<and> distinct (map event_id (staging_events db))
      \<and> ids (staging_events (afterLines e fp input db))
          \<inter> ids (historical_events (afterLines e fp input db)) = {}
    \<longrightarrow> status (job (fst (processFile e fp input db))) = COMPLETED
        \<and> staging_events (fst (processFile e fp input db))
            = staging_events (afterLines e fp input db)
        \<and> distinct (map event_id (historical_events (fst (processFile e fp input db))))
        \<and> set (historical_events (fst (processFile e fp input db))) =
            set (historical_events (afterLines e fp input db))
            \<union> {s \<in> set (staging_events (afterLines e fp input db)).
                 \<exists>h\<in>set (historical_events (afterLines e fp input db)).
                   parent_event_id s = Some (event_id h)}
            \<union> {s \<in> set (staging_events (afterLines e fp input db)).
                 \<exists>f\<in>set (staging_events (afterLines e fp input db)).
                   parent_event_id s = Some (event_id f)
                   \<and> (\<exists>h\<in>set (historical_events (afterLines e fp input db)).
                         parent_event_id f = Some (event_id h))})
   \<and> map event_id (historical_events (fst (processFile ex_env ''events.txt'' ex_forward ex_db)))
       = [id_A, id_B, id_C]
   \<and> status (job (fst (processFile ex_env ''events.txt'' ex_forward ex_db))) = COMPLETED
   \<and> processed_lines (job (fst (processFile ex_env ''events.txt'' ex_forward ex_db))) = 3
   \<and> error_lines (job (fst (processFile ex_env ''events.txt'' ex_forward ex_db))) = 0
   \<and> errors (job (fst (processFile ex_env ''events.txt'' ex_forward ex_db))) = []"
proof -
  have ex1: "map event_id (historical_events (fst (processFile ex_env ''events.txt'' ex_forward ex_db)))
          = [id_A, id_B, id_C]" by code_simp
  have ex2: "status (job (fst (processFile ex_env ''events.txt'' ex_forward ex_db))) = COMPLETED"
    by code_simp
  have ex3: "processed_lines (job (fst (processFile ex_env ''events.txt'' ex_forward ex_db))) = 3"
    by code_simp
  have ex4: "error_lines (job (fst (processFile ex_env ''events.txt'' ex_forward ex_db))) = 0"
    by code_simp
  have ex5: "errors (job (fst (processFile ex_env ''events.txt'' ex_forward ex_db))) = []"
    by code_simp
  let ?a = "afterLines e fp input db"
  let ?r = "fst (processFile e fp input db)"
  have gen: "status (job ?r) = COMPLETED
        \<and> staging_events ?r = staging_events ?a
        \<and> distinct (map event_id (historical_events ?r))
        \<and> set (historical_events ?r) =
            set (historical_events ?a)
            \<union> {s \<in> set (staging_events ?a).
                 \<exists>h\<in>set (historical_events ?a). parent_event_id s = Some (event_id h)}
            \<union> {s \<in> set (staging_events ?a).
                 \<exists>f\<in>set (staging_events ?a). parent_event_id s = Some (event_id f)
                   \<and> (\<exists>h\<in>set (historical_events ?a). parent_event_id f = Some (event_id h))}"
    if m: "markProcessingError e = None" and io: "io_error input = None"
      and dh: "distinct (map event_id (historical_events db))"
      and ds: "distinct (map event_id (staging_events db))"
      and disj: "ids (staging_events ?a) \<inter> ids (historical_events ?a) = {}"
  proof -
    note k = afterLines_keys[OF dh ds, of e fp input]
    from deferredQuery_two_pass[OF k disj] obtain db3 where
      d: "deferredQuery ?a = Inr db3" and s: "staging_events db3 = staging_events ?a"
      and h: "set (historical_events db3) =
            set (historical_events ?a)
            \<union> {s \<in> set (staging_events ?a).
                 \<exists>h\<in>set (historical_events ?a). parent_event_id s = Some (event_id h)}
            \<union> {s \<in> set (staging_events ?a).
                 \<exists>f\<in>set (staging_events ?a). parent_event_id s = Some (event_id f)
                   \<and> (\<exists>h\<in>set (historical_events ?a). parent_event_id f = Some (event_id h))}"
      by blast
    from d have dd: "distinct (map event_id (historical_events db3))"
      using k(1) by (auto simp: deferredQuery_def Let_def ids_def split: if_splits) blast+
    note p = processFile_promotes[OF m io d]
    show ?thesis unfolding p using s h dd by simp
  qed
  from gen ex1 ex2 ex3 ex4 ex5 show ?thesis by blast
qed

theorem C1_witness:
  "markProcessingError ex_env = None \<and> io_error ex_two_levels = None
   \<and> distinct (map event_id (historical_events ex_db))
   \<and> distinct (map event_id (staging_events ex_db))
   \<and> ids (staging_events (afterLines ex_env ''events.txt'' ex_two_levels ex_db))
       \<inter> ids (historical_events (afterLines ex_env ''events.txt'' ex_two_levels ex_db)) = {}
   \<and> map event_id (historical_events (afterLines ex_env ''events.txt'' ex_two_levels ex_db))
       = [id_A]
   \<and> map event_id (staging_events (afterLines ex_env ''events.txt'' ex_two_levels ex_db))
       = [id_C, id_B]
   \<and> map event_id (first_part (afterLines ex_env ''events.txt'' ex_two_levels ex_db)) = [id_B]
   \<and> map event_id (second_part (afterLines ex_env ''events.txt'' ex_two_levels ex_db)) = [id_C]
   \<and> map event_id (historical_events (fst (processFile ex_env ''events.txt'' ex_two_levels ex_db)))
       = [id_A, id_B, id_C]
   \<and> status (job (fst (processFile ex_env ''events.txt'' ex_two_levels ex_db))) = COMPLETED
   \<and> staging_events (fst (processFile ex_env ''events.txt'' ex_two_levels ex_db))
       = staging_events (afterLines ex_env ''events.txt'' ex_two_levels ex_db)"
proof -
  let ?a = "afterLines ex_env ''events.txt'' ex_two_levels ex_db"
  have h1: "markProcessingError ex_env = None" by code_simp
  have h2: "io_error ex_two_levels = None" by code_simp
  have h3: "distinct (map event_id (historical_events ex_db))" by code_simp
  have h4: "distinct (map event_id (staging_events ex_db))" by code_simp
  have h5: "ids (staging_events ?a) \<inter> ids (historical_events ?a) = {}" by code_simp
  have a1: "map event_id (historical_events ?a) = [id_A]" by code_simp
  have a2: "map event_id (staging_events ?a) = [id_C, id_B]" by code_simp
  have a3: "map event_id (first_part ?a) = [id_B]" by code_simp
  have a4: "map event_id (second_part ?a) = [id_C]" by code_simp
  have a5: "map event_id (historical_events (fst (processFile ex_env ''events.txt'' ex_two_levels ex_db)))
       = [id_A, id_B, id_C]" by code_simp
  from C1_two_pass_promotion[of ex_env ex_two_levels ex_db "''events.txt''"] h1 h2 h3 h4 h5
  have "status (job (fst (processFile ex_env ''events.txt'' ex_two_levels ex_db))) = COMPLETED
    \<and> staging_events (fst (processFile ex_env ''events.txt'' ex_two_levels ex_db))
       = staging_events ?a"
    by blast
  with h1 h2 h3 h4 h5 a1 a2 a3 a4 a5 show ?thesis by blast
qed

text \<open>
  C1 as stated fails at depth three: in the file D(parent=C), C(parent=B), B(parent=A),
  A(parent=none) the whole ancestor chain of D is committed when the job completes, and
  D is not.
\<close>

theorem C1_counterexample:
  "map event_id (historical_events (ex_run [line_D, line_C, line_B, line_A])) = [id_A, id_B, id_C]
   \<and> map event_id (staging_events (ex_run [line_D, line_C, line_B, line_A])) = [id_D, id_C, id_B]
   \<and> status (job (ex_run [line_D, line_C, line_B, line_A])) = COMPLETED
   \<and> errors (job (ex_run [line_D, line_C, line_B, line_A])) = []"
  by code_simp

text \<open>
  C2 (the code departs from the claim). The one-line file C(parent=B), whose parent
  appears nowhere, ingested into an empty database: the event is staged and counted as
  processed, the promotion leaves it staged, and the job completes with no error
  recorded and \<open>error_lines = 0\<close>; the claim has one orphan error on the job record.
\<close>

theorem C2_orphan_is_not_reported:
  "status (job (ex_run [line_C])) = COMPLETED
   \<and> errors (job (ex_run [line_C])) = []
   \<and> error_lines (job (ex_run [line_C])) = 0
   \<and> processed_lines (job (ex_run [line_C])) = 1
   \<and> total_lines (job (ex_run [line_C])) = 1
   \<and> historical_events (ex_run [line_C]) = []
   \<and> map event_id (staging_events (ex_run [line_C])) = [id_C]
   \<and> map parent_event_id (staging_events (ex_run [line_C])) = [Some id_B]"
  by code_simp

lemma clean_line:
  assumes "parseLine (parseDate e) fp (lineNumber ls + 1) line = Inr ev"
    and "dataException e ev = None"
    and "case parent_event_id (pg_row ev) of None \<Rightarrow> True
         | Some p \<Rightarrow> p \<in> ids (historical_events db)"
  shows "\<exists>db'. processLine e fp (db, ls) line =
           (db', ls\<lparr> lineNumber := lineNumber ls + 1,
                     localSuccessCount := localSuccessCount ls + 1 \<rparr>)
         \<and> ids (historical_events db') = insert (event_id (pg_row ev)) (ids (historical_events db))
         \<and> staging_events db' = staging_events db
         \<and> job db' = (job db)\<lparr> processed_lines := localSuccessCount ls + 1,
                               total_lines := lineNumber ls + 1 \<rparr>"
  using assms
  by (auto simp: processLine_def insertEvent_def Let_def ids_def split: option.splits)

lemma clean_lines:
  "clean e fp (ids (historical_events db)) (lineNumber ls) input \<Longrightarrow>
   \<exists>db'. readLines e fp (db, ls) input =
           (db', ls\<lparr> lineNumber := lineNumber ls + length input,
                     localSuccessCount := localSuccessCount ls + length input \<rparr>)
       \<and> staging_events db' = staging_events db
       \<and> errors (job db') = errors (job db)
       \<and> error_lines (job db') = error_lines (job db)
       \<and> status (job db') = status (job db)
       \<and> (input \<noteq> [] \<longrightarrow> processed_lines (job db') = localSuccessCount ls + length input
                        \<and> total_lines (job db') = lineNumber ls + length input)"
proof (induction input arbitrary: db ls)
  case Nil
  then show ?case by simp
next
  case (Cons line rest)
  from Cons.prems obtain ev where
    p: "parseLine (parseDate e) fp (lineNumber ls + 1) line = Inr ev"
    and a: "dataException e ev = None"
    and f: "case parent_event_id (pg_row ev) of None \<Rightarrow> True
            | Some p \<Rightarrow> p \<in> ids (historical_events db)"
    and c: "clean e fp (insert (event_id (pg_row ev)) (ids (historical_events db)))
              (lineNumber ls + 1) rest"
    by (auto split: sum.splits)
  let ?ls1 = "ls\<lparr> lineNumber := lineNumber ls + 1, localSuccessCount := localSuccessCount ls + 1 \<rparr>"
  from clean_line[OF p a f] obtain db1 where
    s: "processLine e fp (db, ls) line = (db1, ?ls1)"
    and h: "ids (historical_events db1) = insert (event_id (pg_row ev)) (ids (historical_events db))"
    and g: "staging_events db1 = staging_events db"
    and j: "job db1 = (job db)\<lparr> processed_lines := localSuccessCount ls + 1,
                               total_lines := lineNumber ls + 1 \<rparr>"
    by blast
  from c h have "clean e fp (ids (historical_events db1)) (lineNumber ?ls1) rest" by simp
  from Cons.IH[OF this] obtain db' where
    r: "readLines e fp (db1, ?ls1) rest =
          (db', ?ls1\<lparr> lineNumber := lineNumber ?ls1 + length rest,
                      localSuccessCount := localSuccessCount ?ls1 + length rest \<rparr>)"
    and g': "staging_events db' = staging_events db1"
    and e': "errors (job db') = errors (job db1)"
    and el': "error_lines (job db') = error_lines (job db1)"
    and st': "status (job db') = status (job db1)"
    and c': "rest \<noteq> [] \<longrightarrow> processed_lines (job db') = localSuccessCount ?ls1 + length rest
                        \<and> total_lines (job db') = lineNumber ?ls1 + length rest"
    by blast
  have "readLines e fp (db, ls) (line # rest) =
          (db', ls\<lparr> lineNumber := lineNumber ls + length (line # rest),
                    localSuccessCount := localSuccessCount ls + length (line # rest) \<rparr>)"
    using s r by simp
  moreover have "processed_lines (job db') = localSuccessCount ls + length (line # rest)
                 \<and> total_lines (job db') = lineNumber ls + length (line # rest)"
  proof (cases rest)
    case Nil
    with r j show ?thesis by simp
  next
    case (Cons x xs)
    with c' show ?thesis by simp
  qed
  ultimately show ?case using g g' e' el' st' j by simp
qed

text \<open>
  On a database whose staging table is empty, a file with no malformed line and no
  forward reference is read to \<^verbatim>\<open>COMPLETED\<close> with every line processed and no error line.
\<close>

lemma clean_file_on_empty_staging:
  assumes "clean e fp (ids (historical_events db)) 0 (lines input)"
    and "staging_events db = []"
    and "markProcessingError e = None" and "io_error input = None"
    and "error_lines (job db) = 0"
  shows "status (job (fst (processFile e fp input db))) = COMPLETED
       \<and> processed_lines (job (fst (processFile e fp input db))) = length (lines input)
       \<and> total_lines (job (fst (processFile e fp input db))) = length (lines input)
       \<and> error_lines (job (fst (processFile e fp input db))) = 0"
proof -
  let ?db1 = "db\<lparr> job := (job db)\<lparr> status := PROCESSING \<rparr> \<rparr>"
  let ?start = "\<lparr> lineNumber = 0, localErrorCount = 0, localSuccessCount = 0 \<rparr>"
  from assms(1) have "clean e fp (ids (historical_events ?db1)) (lineNumber ?start) (lines input)"
    by simp
  from clean_lines[OF this] obtain db2 where
    r: "readLines e fp (?db1, ?start) (lines input) =
          (db2, \<lparr> lineNumber = length (lines input), localErrorCount = 0,
                  localSuccessCount = length (lines input) \<rparr>)"
    and g: "staging_events db2 = staging_events ?db1"
    and el: "error_lines (job db2) = error_lines (job ?db1)"
    by auto
  from g assms(2) have "first_part db2 = []" "second_part db2 = []"
    by (simp_all add: first_part_def second_part_def)
  then have d: "deferredQuery db2 = Inr (db2\<lparr> historical_events := historical_events db2 \<rparr>)"
    by (simp add: deferredQuery_def ids_def)
  from r d el assms(3,4,5) show ?thesis
    by (simp add: processFile_def finalUpdateQuery_def)
qed

text \<open>
  C8 (the code departs from the claim). A first job ingests B(parent=A), A(parent=none):
  B is staged, then promoted, and its staging row stays. A second job on the same
  database ingests the one-line file E(parent=none), which has no malformed line and no
  forward reference. Its promotion statement selects the staged B again, B is in the
  main store, the insert has no \<^verbatim>\<open>ON CONFLICT\<close> clause, and the job ends \<^verbatim>\<open>FAILED\<close>
  with a fatal error; the claim has it complete. The counters are as the claim says.
\<close>

theorem C8_clean_file_after_a_promotion_fails:
  "map event_id (historical_events (ex_run [line_B, line_A])) = [id_A, id_B]
   \<and> map event_id (staging_events (ex_run [line_B, line_A])) = [id_B]
   \<and> status (job (ex_run [line_B, line_A])) = COMPLETED
   \<and> status (job (fst (processFile ex_env ''more.txt'' \<lparr> lines = [line_E], io_error = None \<rparr>
         (createIngestionJob ''more.txt'' (ex_run [line_B, line_A]))))) = FAILED
   \<and> errors (job (fst (processFile ex_env ''more.txt'' \<lparr> lines = [line_E], io_error = None \<rparr>
         (createIngestionJob ''more.txt'' (ex_run [line_B, line_A])))))
       = [''Fatal Error: '' @ pk_message]
   \<and> processed_lines (job (fst (processFile ex_env ''more.txt'' \<lparr> lines = [line_E], io_error = None \<rparr>
         (createIngestionJob ''more.txt'' (ex_run [line_B, line_A]))))) = 1
   \<and> total_lines (job (fst (processFile ex_env ''more.txt'' \<lparr> lines = [line_E], io_error = None \<rparr>
         (createIngestionJob ''more.txt'' (ex_run [line_B, line_A]))))) = 1
   \<and> error_lines (job (fst (processFile ex_env ''more.txt'' \<lparr> lines = [line_E], io_error = None \<rparr>
         (createIngestionJob ''more.txt'' (ex_run [line_B, line_A]))))) = 0"
  by code_simp

section \<open>Properties of the gap finder\<close>

lemma gap_step_cases:
  "gap_step best p s = best \<and> gap_ms (p, s) \<le> durationMinutes best * 60000
   \<or> gap_ms (p, s) > durationMinutes best * 60000 \<and> gap_step best p s = gap_of (p, s)"
  by (auto simp: gap_step_def gap_ms_def gap_of_def Let_def)

lemma gap_step_duration:
  "durationMinutes (gap_step best p s) = max (durationMinutes best) (gap_ms (p, s) div 60000)"
proof -
  have "g \<le> d * 60000 \<Longrightarrow> g div 60000 \<le> d" for g d :: int
    using zdiv_mono1[of g "d * 60000" 60000] by simp
  moreover have "g > d * 60000 \<Longrightarrow> g div 60000 \<ge> d" for g d :: int
    using zdiv_mono1[of "d * 60000" g 60000] by simp
  moreover have "durationMinutes (gap_of (p, s)) = gap_ms (p, s) div 60000"
    by (simp add: gap_of_def)
  ultimately show ?thesis using gap_step_cases[of best p s] by (auto simp: max_def)
qed

lemma consecutive_Cons: "consecutive (p # s # rest) = (p, s) # consecutive (s # rest)"
  by (simp add: consecutive_def)

lemma gap_loop_duration:
  "durationMinutes (gap_loop best events) \<ge> durationMinutes best \<and>
   (\<forall>pr \<in> set (consecutive events). gap_ms pr div 60000 \<le> durationMinutes (gap_loop best events))"
proof (induction best events rule: gap_loop.induct)
  case (1 best p s rest)
  then show ?case
    by (auto simp: consecutive_Cons gap_step_duration)
qed (simp_all add: consecutive_def)

lemma gap_loop_origin:
  "gap_loop best events = best \<or>
   (\<exists>pr \<in> set (consecutive events). gap_loop best events = gap_of pr)"
proof (induction best events rule: gap_loop.induct)
  case (1 best p s rest)
  from gap_step_cases[of best p s]
  have "gap_step best p s = best \<or> gap_step best p s = gap_of (p, s)" by blast
  then show ?case
  proof
    assume "gap_step best p s = best"
    with "1.IH" show ?thesis by (auto simp: consecutive_Cons)
  next
    assume g: "gap_step best p s = gap_of (p, s)"
    from "1.IH" have "gap_loop (gap_step best p s) (s # rest) = gap_step best p s \<or>
       (\<exists>pr \<in> set (consecutive (s # rest)). gap_loop (gap_step best p s) (s # rest) = gap_of pr)" .
    then show ?thesis
    proof
      assume "gap_loop (gap_step best p s) (s # rest) = gap_step best p s"
      with g have "gap_loop best (p # s # rest) = gap_of (p, s)" by simp
      then show ?thesis by (simp add: consecutive_Cons)
    next
      assume "\<exists>pr \<in> set (consecutive (s # rest)).
                gap_loop (gap_step best p s) (s # rest) = gap_of pr"
      then show ?thesis by (auto simp: consecutive_Cons)
    qed
  qed
qed simp_all

lemma findTemporalGaps_unfold:
  "findTemporalGaps events =
     (if length events < 2 \<or> durationMinutes (gap_loop gap_init events) \<le> 0 then no_gap
      else \<lparr> largestGap = Some (gap_loop gap_init events),
             gap_message = ''Largest temporal gap identified.'' \<rparr>)"
  by (auto simp: findTemporalGaps_def gap_init_def Let_def)

text \<open>
  C6 (as amended). The gap finder works in whole minutes. With fewer than two rows, or
  when no gap \<open>next.start - prev.end\<close> between consecutive rows reaches one minute, it
  returns \<open>largestGap = null\<close> with the no-gap message. Otherwise it returns a
  \<open>largestGap\<close> built from a consecutive pair: its \<open>durationMinutes\<close> is the floor of that
  pair's gap in minutes, no consecutive pair has a larger floored gap (so it is the floor
  of the maximum gap), and its bounding instants and the two event summaries are those of
  the pair.
\<close>

theorem C6_largest_gap_in_whole_minutes:
  "(length events < 2 \<or> (\<forall>pr \<in> set (consecutive events). gap_ms pr < 60000)
      \<longrightarrow> findTemporalGaps events = no_gap)
   \<and> (2 \<le> length events \<and> (\<exists>pr \<in> set (consecutive events). 60000 \<le> gap_ms pr)
      \<longrightarrow> (\<exists>pr \<in> set (consecutive events).
            findTemporalGaps events =
              \<lparr> largestGap = Some (gap_of pr), gap_message = ''Largest temporal gap identified.'' \<rparr>
            \<and> (\<forall>qr \<in> set (consecutive events). gap_ms qr div 60000 \<le> gap_ms pr div 60000)))"
proof -
  let ?best = "gap_loop gap_init events"
  note d = gap_loop_duration[of gap_init events]
  note o = gap_loop_origin[of gap_init events]
  have dur: "durationMinutes (gap_of pr) = gap_ms pr div 60000" for pr
    by (simp add: gap_of_def)
  have small: "g < 60000 \<Longrightarrow> g div 60000 \<le> 0" for g :: int
    using zdiv_mono1[of g 59999 60000] by simp
  have big: "60000 \<le> g \<Longrightarrow> 1 \<le> g div 60000" for g :: int
    using zdiv_mono1[of 60000 g 60000] by simp
  have none: "findTemporalGaps events = no_gap"
    if a: "\<forall>pr \<in> set (consecutive events). gap_ms pr < 60000"
  proof -
    from o have "durationMinutes ?best \<le> 0"
    proof
      assume "?best = gap_init" then show ?thesis by (simp add: gap_init_def)
    next
      assume "\<exists>pr \<in> set (consecutive events). ?best = gap_of pr"
      then obtain pr where "pr \<in> set (consecutive events)" and "?best = gap_of pr" by blast
      with a small[of "gap_ms pr"] dur[of pr] show ?thesis by simp
    qed
    then show ?thesis by (simp add: findTemporalGaps_unfold)
  qed
  have some: "\<exists>pr \<in> set (consecutive events).
            findTemporalGaps events =
              \<lparr> largestGap = Some (gap_of pr), gap_message = ''Largest temporal gap identified.'' \<rparr>
            \<and> (\<forall>qr \<in> set (consecutive events). gap_ms qr div 60000 \<le> gap_ms pr div 60000)"
    if len: "2 \<le> length events" and ex: "\<exists>pr \<in> set (consecutive events). 60000 \<le> gap_ms pr"
  proof -
    from ex obtain qr where q: "qr \<in> set (consecutive events)" "60000 \<le> gap_ms qr" by blast
    from d q(1) have "gap_ms qr div 60000 \<le> durationMinutes ?best" by blast
    with big[OF q(2)] have pos: "0 < durationMinutes ?best" by simp
    then have "?best \<noteq> gap_init" by (auto simp: gap_init_def)
    with o obtain pr where pr: "pr \<in> set (consecutive events)" and b: "?best = gap_of pr"
      by blast
    from pos len b have "findTemporalGaps events =
       \<lparr> largestGap = Some (gap_of pr), gap_message = ''Largest temporal gap identified.'' \<rparr>"
      by (simp add: findTemporalGaps_unfold)
    moreover from d have "\<forall>qr \<in> set (consecutive events).
        gap_ms qr div 60000 \<le> gap_ms pr div 60000"
      unfolding b dur by blast
    ultimately show ?thesis using pr by blast
  qed
  have short: "length events < 2 \<Longrightarrow> findTemporalGaps events = no_gap"
    by (simp add: findTemporalGaps_unfold)
  from none some short show ?thesis by blast
qed

theorem C6_witness:
  "2 \<le> length ex_gap_rows
   \<and> (\<exists>pr \<in> set (consecutive ex_gap_rows). 60000 \<le> gap_ms pr)
   \<and> (\<exists>pr \<in> set (consecutive ex_gap_rows).
         findTemporalGaps ex_gap_rows =
           \<lparr> largestGap = Some (gap_of pr), gap_message = ''Largest temporal gap identified.'' \<rparr>)
   \<and> map_option durationMinutes (largestGap (findTemporalGaps ex_gap_rows)) = Some 20
   \<and> length [ex_row id_A ''A'' (minutes 0) (minutes 10)] < 2
   \<and> findTemporalGaps [ex_row id_A ''A'' (minutes 0) (minutes 10)] = no_gap"
proof -
  have l: "2 \<le> length ex_gap_rows" by (simp add: ex_gap_rows_def)
  have g: "gap_ms (ex_row id_A ''A'' (minutes 0) (minutes 10), ex_row id_B ''B'' (minutes 30) (minutes 40))
             = 1200000" by code_simp
  have c: "consecutive ex_gap_rows =
     [(ex_row id_A ''A'' (minutes 0) (minutes 10), ex_row id_B ''B'' (minutes 30) (minutes 40))]"
    by (simp add: consecutive_def ex_gap_rows_def)
  from g c have e: "\<exists>pr \<in> set (consecutive ex_gap_rows). 60000 \<le> gap_ms pr" by simp
  have v: "map_option durationMinutes (largestGap (findTemporalGaps ex_gap_rows)) = Some 20"
    by code_simp
  have s: "length [ex_row id_A ''A'' (minutes 0) (minutes 10)] < 2" by simp
  from C6_largest_gap_in_whole_minutes[of ex_gap_rows] l e
  have w: "\<exists>pr \<in> set (consecutive ex_gap_rows).
         findTemporalGaps ex_gap_rows =
           \<lparr> largestGap = Some (gap_of pr), gap_message = ''Largest temporal gap identified.'' \<rparr>"
    by blast
  from C6_largest_gap_in_whole_minutes[of "[ex_row id_A ''A'' (minutes 0) (minutes 10)]"] s
  have n: "findTemporalGaps [ex_row id_A ''A'' (minutes 0) (minutes 10)] = no_gap" by blast
  show ?thesis
    by (intro conjI l e w v s n)
qed

text \<open>
  C6 as stated fails: two rows with a strictly positive gap of thirty seconds yield
  \<open>largestGap = null\<close>.
\<close>

theorem C6_counterexample:
  "2 \<le> length ex_half_minute_rows
   \<and> consecutive ex_half_minute_rows
       = [(ex_row id_A ''A'' (minutes 0) (minutes 10), ex_row id_B ''B'' (minutes 10 + 30000) (minutes 40))]
   \<and> gap_ms (ex_row id_A ''A'' (minutes 0) (minutes 10), ex_row id_B ''B'' (minutes 10 + 30000) (minutes 40))
       = 30000
   \<and> largestGap (findTemporalGaps ex_half_minute_rows) = None"
proof -
  have "2 \<le> length ex_half_minute_rows" by (simp add: ex_half_minute_rows_def)
  moreover have "consecutive ex_half_minute_rows
       = [(ex_row id_A ''A'' (minutes 0) (minutes 10), ex_row id_B ''B'' (minutes 10 + 30000) (minutes 40))]"
    by (simp add: consecutive_def ex_half_minute_rows_def)
  moreover have "gap_ms (ex_row id_A ''A'' (minutes 0) (minutes 10), ex_row id_B ''B'' (minutes 10 + 30000) (minutes 40))
       = 30000" by code_simp
  moreover have "largestGap (findTemporalGaps ex_half_minute_rows) = None" by code_simp
  ultimately show ?thesis by blast
qed

section \<open>Properties of the overlap detector\<close>

lemma pairKey_commute: "pairKey x y = pairKey y x"
  by (auto simp: pairKey_def)

lemma pairKey_inj:
  assumes "length x = 36" "length y = 36" "length x' = 36" "length y' = 36"
    and "pairKey x y = pairKey x' y'"
  shows "{x, y} = {x', y'}"
  using assms by (auto simp: pairKey_def split: if_splits)

lemma overlapMinutes_commute: "overlapMinutes a b = overlapMinutes b a"
  by (simp add: overlapMinutes_def min.commute max.commute)

lemma overlapMinutes_pos:
  assumes "0 < overlapMinutes a b"
  shows "start_date b < end_date a"
proof (rule ccontr)
  assume "\<not> start_date b < end_date a"
  then have "min (end_date a) (end_date b) - max (start_date a) (start_date b) \<le> 0" by simp
  from zdiv_mono1[OF this, of 60000] have "overlapMinutes a b \<le> 0"
    by (simp add: overlapMinutes_def)
  with assms show False by simp
qed

lemma pair_ids_entry [simp]: "pair_ids (entry a b) = {event_id a, event_id b}"
  by (simp add: pair_ids_def entry_def summary_def)

lemma pair_with_result:
  assumes "\<forall>a \<in> set acts. pairKey (event_id b) (event_id a) \<notin> reported"
    and "inj_on (\<lambda>a. pairKey (event_id b) (event_id a)) (set acts)"
    and "distinct acts"
  shows "pair_with b acts (pairs, reported) =
           (pairs @ map (entry b) (filter (\<lambda>a. 0 < overlapMinutes b a) acts),
            reported \<union> (\<lambda>a. pairKey (event_id b) (event_id a))
                          ` {a \<in> set acts. 0 < overlapMinutes b a})"
  using assms
proof (induction acts arbitrary: pairs reported)
  case Nil
  then show ?case by simp
next
  case (Cons a rest)
  let ?k = "\<lambda>a. pairKey (event_id b) (event_id a)"
  from Cons.prems have fresh: "?k a \<notin> reported" by simp
  from Cons.prems have others: "\<forall>c \<in> set rest. ?k c \<noteq> ?k a"
    by (auto simp: inj_on_def)
  from Cons.prems have inj: "inj_on ?k (set rest)" and dist: "distinct rest"
    by (auto simp: inj_on_def)
  show ?case
  proof (cases "0 < overlapMinutes b a")
    case True
    have step: "pair_with b (a # rest) (pairs, reported) =
                  pair_with b rest (pairs @ [entry b a], insert (?k a) reported)"
      using fresh True by (simp add: Let_def entry_def overlapMinutes_def)
    have "\<forall>c \<in> set rest. ?k c \<notin> insert (?k a) reported"
      using Cons.prems(1) others by simp
    from Cons.IH[OF this inj dist, of "pairs @ [entry b a]"] step True
    show ?thesis by auto
  next
    case False
    have step: "pair_with b (a # rest) (pairs, reported) = pair_with b rest (pairs, reported)"
      using fresh False by (simp add: Let_def overlapMinutes_def)
    have "\<forall>c \<in> set rest. ?k c \<notin> reported" using Cons.prems(1) by simp
    from Cons.IH[OF this inj dist, of pairs] step False
    show ?thesis by auto
  qed
qed

lemma point_facts [simp]:
  "start_point a \<noteq> end_point b" "end_point b \<noteq> start_point a"
  "(start_point a = start_point b) = (a = b)" "(end_point a = end_point b) = (a = b)"
  "event (start_point a) = a" "event (end_point a) = a"
  "type (start_point a) = Start" "type (end_point a) = End"
  by (auto simp: start_point_def end_point_def)

lemma end_after_own_start:
  assumes "start_date b \<le> end_date b"
  shows "comparePoints (start_point b) (end_point b) < 0 \<and> 0 < comparePoints (end_point b) (start_point b)"
  using assms by (auto simp: comparePoints_def start_point_def end_point_def)

lemma end_after_earlier_start:
  assumes "start_date b < end_date a"
  shows "comparePoints (start_point b) (end_point a) < 0 \<and> 0 < comparePoints (end_point a) (start_point b)"
  using assms by (auto simp: comparePoints_def start_point_def end_point_def)

lemma ovl_sym: "ovl E pre a b = ovl E pre b a"
  by (auto simp: ovl_def overlapMinutes_commute)

lemma sweep_step_end:
  assumes inv: "sweep_inv E pre st" and b: "b \<in> E"
  shows "sweep_inv E (pre @ [end_point b]) (sweep_step st (end_point b))"
proof -
  have o: "ovl E (pre @ [end_point b]) = ovl E pre"
    by (intro ext) (simp add: ovl_def)
  have s: "sweep_step st (end_point b) = st\<lparr> activeEvents := removeAll b (activeEvents st) \<rparr>"
    by (simp add: sweep_step_def)
  from inv have "set (removeAll b (activeEvents st)) =
      {e \<in> E. start_point e \<in> set (pre @ [end_point b]) \<and> end_point e \<notin> set (pre @ [end_point b])}"
    by (auto simp: sweep_inv_def)
  moreover from inv have "distinct (removeAll b (activeEvents st))"
    by (simp add: sweep_inv_def distinct_removeAll)
  ultimately show ?thesis using inv unfolding s sweep_inv_def o by simp
qed

lemma sweep_step_start:
  assumes inv: "sweep_inv E pre st" and b: "b \<in> E"
    and inj: "inj_on event_id E"
    and wf: "\<forall>e \<in> E. start_date e \<le> end_date e \<and> length (event_id e) = 36"
    and new: "start_point b \<notin> set pre"
    and ord: "\<forall>y \<in> set pre. \<not> (comparePoints (start_point b) y < 0 \<and> 0 < comparePoints y (start_point b))"
  shows "sweep_inv E (pre @ [start_point b]) (sweep_step st (start_point b))"
proof -
  let ?acts = "activeEvents st"
  let ?k = "\<lambda>a. pairKey (event_id b) (event_id a)"
  let ?new = "filter (\<lambda>a. 0 < overlapMinutes b a) ?acts"
  let ?pre' = "pre @ [start_point b]"
  have act: "set ?acts = {e \<in> E. start_point e \<in> set pre \<and> end_point e \<notin> set pre}"
    and dact: "distinct ?acts"
    and rep: "reportedPairs st = {k. \<exists>a c. ovl E pre a c \<and> k = pairKey (event_id a) (event_id c)}"
    and dpairs: "distinct (map pair_ids (overlappingPairs st))"
    and ids: "pair_ids ` set (overlappingPairs st)
                = {s. \<exists>a c. ovl E pre a c \<and> s = {event_id a, event_id c}}"
    and ent: "\<forall>r \<in> set (overlappingPairs st). \<exists>a c. a \<in> E \<and> c \<in> E \<and> a \<noteq> c \<and> r = entry a c"
    using inv by (simp_all add: sweep_inv_def)
  have k1: "a \<in> E \<and> a \<noteq> b \<and> start_point a \<in> set pre" if "a \<in> set ?acts" for a
    using that act new by auto
  have id_eq: "event_id a = event_id c \<Longrightarrow> a = c" if "a \<in> E" "c \<in> E" for a c
    using inj that by (auto simp: inj_on_def)
  have len: "length (event_id a) = 36" if "a \<in> E" for a using wf that by simp
  have unseen: "\<not> ovl E pre b c" "\<not> ovl E pre c b" for c
    using new by (auto simp: ovl_def)
  have key_pair: "{event_id a, event_id c} = {event_id a', event_id c'}"
    if "pairKey (event_id a) (event_id c) = pairKey (event_id a') (event_id c')"
      "a \<in> E" "c \<in> E" "a' \<in> E" "c' \<in> E" for a c a' c'
    using pairKey_inj[OF len[OF that(2)] len[OF that(3)] len[OF that(4)] len[OF that(5)] that(1)] .
  have k2: "\<forall>a \<in> set ?acts. ?k a \<notin> reportedPairs st"
  proof (intro ballI notI)
    fix a assume a: "a \<in> set ?acts" and "?k a \<in> reportedPairs st"
    then obtain c d where cd: "ovl E pre c d" and e: "?k a = pairKey (event_id c) (event_id d)"
      unfolding rep by blast
    from cd have cE: "c \<in> E" and dE: "d \<in> E" by (auto simp: ovl_def)
    from key_pair[OF e b _ cE dE] k1[OF a]
    have "event_id b = event_id c \<or> event_id b = event_id d" by (auto simp: doubleton_eq_iff)
    with id_eq[OF b cE] id_eq[OF b dE] have "b = c \<or> b = d" by blast
    with cd unseen show False by blast
  qed
  have k3: "inj_on ?k (set ?acts)"
  proof (rule inj_onI)
    fix a a' assume a: "a \<in> set ?acts" and a': "a' \<in> set ?acts" and e: "?k a = ?k a'"
    from k1[OF a] k1[OF a'] have aE: "a \<in> E" and a'E: "a' \<in> E" and "a \<noteq> b" "a' \<noteq> b"
      by auto
    from key_pair[OF e b aE b a'E] have "{event_id b, event_id a} = {event_id b, event_id a'}" .
    then have "event_id a = event_id a'" by (auto simp: doubleton_eq_iff)
    with id_eq[OF aE a'E] show "a = a'" by simp
  qed
  have endb: "end_point b \<notin> set pre"
    using ord end_after_own_start[of b] wf b by blast
  have k4: "set ?new = {a \<in> E. a \<noteq> b \<and> start_point a \<in> set pre \<and> 0 < overlapMinutes b a}"
  proof (intro set_eqI iffI)
    fix a assume "a \<in> set ?new" then show "a \<in> {a \<in> E. a \<noteq> b \<and> start_point a \<in> set pre \<and> 0 < overlapMinutes b a}"
      using k1[of a] by simp
  next
    fix a assume "a \<in> {a \<in> E. a \<noteq> b \<and> start_point a \<in> set pre \<and> 0 < overlapMinutes b a}"
    then have a: "a \<in> E" "start_point a \<in> set pre" "0 < overlapMinutes b a" by auto
    from a(3) have "0 < overlapMinutes a b" by (simp add: overlapMinutes_commute)
    from overlapMinutes_pos[OF this] have "start_date b < end_date a" .
    from end_after_earlier_start[OF this] ord have "end_point a \<notin> set pre" by blast
    with a act show "a \<in> set ?new" by simp
  qed
  have o: "ovl E ?pre' a c = (ovl E pre a c \<or> (a = b \<and> c \<in> set ?new) \<or> (c = b \<and> a \<in> set ?new))"
    for a c
    unfolding k4 using b by (auto simp: ovl_def overlapMinutes_commute)
  have s: "sweep_step st (start_point b) =
             \<lparr> overlappingPairs = overlappingPairs st @ map (entry b) ?new,
               activeEvents = ?acts @ [b],
               reportedPairs = reportedPairs st \<union> ?k ` {a \<in> set ?acts. 0 < overlapMinutes b a} \<rparr>"
    using pair_with_result[OF k2 k3 dact, of "overlappingPairs st"] k1[of b]
    by (auto simp: sweep_step_def)
  have i1: "distinct (?acts @ [b])" using dact k1[of b] by auto
  have i2: "set (?acts @ [b]) = {e \<in> E. start_point e \<in> set ?pre' \<and> end_point e \<notin> set ?pre'}"
    using act b endb new by auto
  have i3: "reportedPairs st \<union> ?k ` {a \<in> set ?acts. 0 < overlapMinutes b a}
              = {k. \<exists>a c. ovl E ?pre' a c \<and> k = pairKey (event_id a) (event_id c)}"
  proof -
    have "?k ` {a \<in> set ?acts. 0 < overlapMinutes b a} = ?k ` set ?new" by simp
    also have "reportedPairs st \<union> \<dots> = {k. \<exists>a c. ovl E ?pre' a c \<and> k = pairKey (event_id a) (event_id c)}"
      unfolding rep o by (auto simp: pairKey_commute)
    finally show ?thesis .
  qed
  have i5: "pair_ids ` set (overlappingPairs st @ map (entry b) ?new)
              = {s. \<exists>a c. ovl E ?pre' a c \<and> s = {event_id a, event_id c}}"
  proof -
    have "pair_ids ` set (overlappingPairs st @ map (entry b) ?new)
            = pair_ids ` set (overlappingPairs st) \<union> (\<lambda>a. {event_id b, event_id a}) ` set ?new"
      by (auto simp: image_Un image_image)
    also have "\<dots> = {s. \<exists>a c. ovl E ?pre' a c \<and> s = {event_id a, event_id c}}"
      unfolding ids o by (auto simp: insert_commute)
    finally show ?thesis .
  qed
  have i4: "distinct (map pair_ids (overlappingPairs st @ map (entry b) ?new))"
  proof -
    have d1: "distinct (map pair_ids (map (entry b) ?new))"
    proof -
      have "inj_on (\<lambda>a. {event_id b, event_id a}) (set ?new)"
      proof (rule inj_onI)
        fix a a' assume a: "a \<in> set ?new" and a': "a' \<in> set ?new"
          and e: "{event_id b, event_id a} = {event_id b, event_id a'}"
        from a a' k1 have aE: "a \<in> E" "a' \<in> E" by auto
        from e have "event_id a = event_id a'" by (auto simp: doubleton_eq_iff)
        with id_eq[OF aE] show "a = a'" by simp
      qed
      moreover have "distinct ?new" using dact by simp
      ultimately show ?thesis by (simp add: distinct_map comp_def)
    qed
    have d2: "pair_ids ` set (overlappingPairs st) \<inter> pair_ids ` set (map (entry b) ?new) = {}"
    proof (rule ccontr)
      assume "pair_ids ` set (overlappingPairs st) \<inter> pair_ids ` set (map (entry b) ?new) \<noteq> {}"
      then obtain s where s1: "s \<in> pair_ids ` set (overlappingPairs st)"
        and s2: "s \<in> pair_ids ` set (map (entry b) ?new)" by blast
      from s1 obtain c d where cd: "ovl E pre c d" and sc: "s = {event_id c, event_id d}"
        unfolding ids by blast
      from s2 obtain a where "s = pair_ids (entry b a)" by auto
      then have "s = {event_id b, event_id a}" by simp
      with sc have "event_id b = event_id c \<or> event_id b = event_id d"
        by (auto simp: doubleton_eq_iff)
      moreover from cd have "c \<in> E" "d \<in> E" by (auto simp: ovl_def)
      ultimately have "b = c \<or> b = d" using id_eq[OF b] by blast
      with cd unseen show False by blast
    qed
    have d2': "set (map pair_ids (overlappingPairs st))
                 \<inter> set (map pair_ids (map (entry b) ?new)) = {}"
      using d2 by (simp only: set_map)
    show ?thesis
      by (simp only: map_append distinct_append dpairs d1 d2' simp_thms)
  qed
  have i6: "\<forall>r \<in> set (overlappingPairs st @ map (entry b) ?new).
              \<exists>a c. a \<in> E \<and> c \<in> E \<and> a \<noteq> c \<and> r = entry a c"
  proof
    fix r assume "r \<in> set (overlappingPairs st @ map (entry b) ?new)"
    then consider "r \<in> set (overlappingPairs st)" | a where "a \<in> set ?new" "r = entry b a"
      by auto
    then show "\<exists>a c. a \<in> E \<and> c \<in> E \<and> a \<noteq> c \<and> r = entry a c"
    proof cases
      case 1
      with ent show ?thesis by blast
    next
      case 2
      with k1[of a] b show ?thesis by auto
    qed
  qed
  show ?thesis
    unfolding s sweep_inv_def using i1 i2 i3 i4 i5 i6 by simp
qed

lemma sweep_inv_init:
  "sweep_inv E [] \<lparr> overlappingPairs = [], activeEvents = [], reportedPairs = {} \<rparr>"
  by (simp add: sweep_inv_def ovl_def)

lemma sweep_inv_all:
  assumes "sweep_inv E pre st"
    and "inj_on event_id E"
    and "\<forall>e \<in> E. start_date e \<le> end_date e \<and> length (event_id e) = 36"
    and "distinct (pre @ post)"
    and "set post \<subseteq> start_point ` E \<union> end_point ` E"
    and "sorted_wrt (\<lambda>a b. \<not> (comparePoints b a < 0 \<and> 0 < comparePoints a b)) (pre @ post)"
  shows "sweep_inv E (pre @ post) (sweep st post)"
  using assms
proof (induction post arbitrary: pre st)
  case Nil
  then show ?case by simp
next
  case (Cons x post)
  from Cons.prems(4) have new: "x \<notin> set pre" by simp
  from Cons.prems(6) have ord: "\<forall>y \<in> set pre. \<not> (comparePoints x y < 0 \<and> 0 < comparePoints y x)"
    by (simp add: sorted_wrt_append)
  from Cons.prems(5) consider b where "b \<in> E" "x = start_point b"
    | b where "b \<in> E" "x = end_point b" by auto
  then have step: "sweep_inv E (pre @ [x]) (sweep_step st x)"
  proof cases
    case 1
    with sweep_step_start[OF Cons.prems(1) 1(1) Cons.prems(2,3)] new ord show ?thesis by simp
  next
    case 2
    with sweep_step_end[OF Cons.prems(1) 2(1)] show ?thesis by simp
  qed
  have "sweep_inv E ((pre @ [x]) @ post) (sweep (sweep_step st x) post)"
    by (rule Cons.IH[OF step Cons.prems(2,3)]) (use Cons.prems(4,5,6) in simp_all)
  then show ?case by simp
qed

lemma points_of_set: "set (points_of events) = start_point ` set events \<union> end_point ` set events"
  by (auto simp: points_of_def)

lemma points_of_distinct: "distinct events \<Longrightarrow> distinct (points_of events)"
  by (induction events) (auto simp: points_of_def)

lemma UUID_length: "UUID_REGEX_test s \<Longrightarrow> length s = 36"
  by (simp add: UUID_REGEX_test_def)

text \<open>
  C5. The rows of one query result have distinct IDs, which are UUIDs, and start no later
  than they end; the engine's sort returns the points sorted. Then every pair of
  different rows is reported at most once, it is reported if and only if its overlap
  \<open>min(ends) - max(starts)\<close>, floored to whole minutes, is strictly positive, and every
  reported entry holds the summaries of two different rows and their overlap in minutes.
  (A[00:00,00:30], B[00:20,00:50] give one pair of 10 minutes; A[00:00,00:10],
  B[00:10,00:20], which touch, give none: both are evaluated after the theorem.)
\<close>

theorem C5_overlapping_pairs_reported_once:
  assumes srt: "sorts srt (points_of events)"
    and ids: "distinct (map event_id events)"
    and wf: "\<forall>e \<in> set events. start_date e \<le> end_date e \<and> UUID_REGEX_test (event_id e)"
  shows "distinct (map pair_ids (findOverlappingEvents srt events))
    \<and> (\<forall>a \<in> set events. \<forall>b \<in> set events. a \<noteq> b \<longrightarrow>
         ((\<exists>r \<in> set (findOverlappingEvents srt events). pair_ids r = {event_id a, event_id b})
          \<longleftrightarrow> 0 < overlapMinutes a b))
    \<and> (\<forall>r \<in> set (findOverlappingEvents srt events).
         \<exists>a \<in> set events. \<exists>b \<in> set events. a \<noteq> b
           \<and> overlappingEventPairs r = [summary a, summary b]
           \<and> overlap_duration_minutes r = overlapMinutes a b)"
proof (cases "length events < 2")
  case True
  then have r: "findOverlappingEvents srt events = []" by (simp add: findOverlappingEvents_def)
  have one: "a = b" if "a \<in> set events" "b \<in> set events" for a b
  proof (cases events)
    case Nil
    with that show ?thesis by simp
  next
    case (Cons x xs)
    with True have "xs = []" by simp
    with Cons that show ?thesis by simp
  qed
  show ?thesis unfolding r
  proof (intro conjI ballI impI)
    show "distinct (map pair_ids [])" by simp
  next
    fix a b assume "a \<in> set events" "b \<in> set events" "a \<noteq> b"
    with one show "(\<exists>r\<in>set []. pair_ids r = {event_id a, event_id b}) = (0 < overlapMinutes a b)"
      by blast
  next
    fix r :: overlap assume "r \<in> set []"
    then show "\<exists>a\<in>set events. \<exists>b\<in>set events. a \<noteq> b
           \<and> overlappingEventPairs r = [summary a, summary b]
           \<and> overlap_duration_minutes r = overlapMinutes a b" by simp
  qed
next
  case False
  let ?E = "set events"
  let ?ps = "srt comparePoints (points_of events)"
  let ?init = "\<lparr> overlappingPairs = [], activeEvents = [], reportedPairs = {} \<rparr>"
  let ?res = "overlappingPairs (sweep ?init ?ps)"
  from False have r: "findOverlappingEvents srt events = ?res"
    by (simp add: findOverlappingEvents_def)
  from ids have de: "distinct events" by (simp add: distinct_map)
  from ids have inj: "inj_on event_id ?E" by (simp add: distinct_map)
  from srt have ms: "mset ?ps = mset (points_of events)"
    and so: "sorted_wrt (\<lambda>a b. \<not> (comparePoints b a < 0 \<and> 0 < comparePoints a b)) ?ps"
    by (simp_all add: sorts_def)
  have sp: "set ?ps = start_point ` ?E \<union> end_point ` ?E"
    using mset_eq_setD[OF ms] by (simp only: points_of_set)
  have dp: "distinct ?ps"
    using mset_eq_imp_distinct_iff[OF ms] points_of_distinct[OF de] by simp
  have wf': "\<forall>e \<in> ?E. start_date e \<le> end_date e \<and> length (event_id e) = 36"
  proof
    fix e assume "e \<in> ?E"
    with wf have "start_date e \<le> end_date e" "UUID_REGEX_test (event_id e)" by simp_all
    then show "start_date e \<le> end_date e \<and> length (event_id e) = 36"
      by (simp add: UUID_length)
  qed
  have sub: "set ?ps \<subseteq> start_point ` ?E \<union> end_point ` ?E" using sp by simp
  have "sweep_inv ?E ([] @ ?ps) (sweep ?init ?ps)"
  proof (rule sweep_inv_all[OF sweep_inv_init inj wf'])
    show "distinct ([] @ ?ps)" using dp by simp
    show "set ?ps \<subseteq> start_point ` ?E \<union> end_point ` ?E" by (rule sub)
    show "sorted_wrt (\<lambda>a b. \<not> (comparePoints b a < 0 \<and> 0 < comparePoints a b)) ([] @ ?ps)"
      using so by simp
  qed
  then have inv: "sweep_inv ?E ?ps (sweep ?init ?ps)" by simp
  have started: "start_point a \<in> set ?ps" if "a \<in> ?E" for a
    unfolding sp using that by simp
  have full: "ovl ?E ?ps a b = (a \<in> ?E \<and> b \<in> ?E \<and> a \<noteq> b \<and> 0 < overlapMinutes a b)" for a b
    unfolding ovl_def using started[of a] started[of b] by blast
  note u = inv[unfolded sweep_inv_def]
  from u have d: "distinct (map pair_ids ?res)" by (elim conjE)
  from u have i: "pair_ids ` set ?res = {s. \<exists>a b. ovl ?E ?ps a b \<and> s = {event_id a, event_id b}}"
    by (elim conjE)
  from u have e: "\<forall>r \<in> set ?res. \<exists>a b. a \<in> ?E \<and> b \<in> ?E \<and> a \<noteq> b \<and> r = entry a b"
    by (elim conjE)
  have c2: "(\<exists>r \<in> set ?res. pair_ids r = {event_id a, event_id b}) \<longleftrightarrow> 0 < overlapMinutes a b"
    if a: "a \<in> ?E" and b: "b \<in> ?E" and ab: "a \<noteq> b" for a b
  proof
    assume "\<exists>r \<in> set ?res. pair_ids r = {event_id a, event_id b}"
    then obtain r where "r \<in> set ?res" "pair_ids r = {event_id a, event_id b}" by blast
    then have "{event_id a, event_id b} \<in> pair_ids ` set ?res" by (metis imageI)
    then have "\<exists>c d. ovl ?E ?ps c d \<and> {event_id a, event_id b} = {event_id c, event_id d}"
      unfolding i by simp
    then obtain c d where cd: "ovl ?E ?ps c d"
      and s: "{event_id a, event_id b} = {event_id c, event_id d}" by blast
    from cd have cE: "c \<in> ?E" and dE: "d \<in> ?E" and pos: "0 < overlapMinutes c d"
      by (simp_all add: full)
    from s have "(event_id a = event_id c \<and> event_id b = event_id d)
               \<or> (event_id a = event_id d \<and> event_id b = event_id c)"
      by (simp add: doubleton_eq_iff)
    then have "(a = c \<and> b = d) \<or> (a = d \<and> b = c)"
      using inj_onD[OF inj _ a cE] inj_onD[OF inj _ b dE] inj_onD[OF inj _ a dE]
        inj_onD[OF inj _ b cE] by blast
    then show "0 < overlapMinutes a b"
    proof
      assume "a = c \<and> b = d"
      with pos show ?thesis by simp
    next
      assume "a = d \<and> b = c"
      with pos show ?thesis by (simp add: overlapMinutes_commute)
    qed
  next
    assume "0 < overlapMinutes a b"
    with a b ab have "ovl ?E ?ps a b" by (simp add: full)
    then have "{event_id a, event_id b} \<in> pair_ids ` set ?res" unfolding i by blast
    then obtain r where "r \<in> set ?res" "pair_ids r = {event_id a, event_id b}"
      by (metis imageE)
    then show "\<exists>r \<in> set ?res. pair_ids r = {event_id a, event_id b}" by blast
  qed
  have c3: "\<exists>a \<in> ?E. \<exists>b \<in> ?E. a \<noteq> b
           \<and> overlappingEventPairs r = [summary a, summary b]
           \<and> overlap_duration_minutes r = overlapMinutes a b" if "r \<in> set ?res" for r
  proof -
    from e that obtain a b where "a \<in> ?E" "b \<in> ?E" "a \<noteq> b" "r = entry a b" by blast
    moreover have "overlappingEventPairs (entry a b) = [summary a, summary b]"
      "overlap_duration_minutes (entry a b) = overlapMinutes a b"
      by (simp_all add: entry_def)
    ultimately show ?thesis by blast
  qed
  show ?thesis unfolding r
  proof (intro conjI ballI impI)
    show "distinct (map pair_ids ?res)" by (rule d)
  next
    fix a b assume "a \<in> ?E" "b \<in> ?E" "a \<noteq> b"
    then show "(\<exists>r\<in>set ?res. pair_ids r = {event_id a, event_id b}) = (0 < overlapMinutes a b)"
      by (rule c2)
  next
    fix r assume "r \<in> set ?res"
    then show "\<exists>a\<in>?E. \<exists>b\<in>?E. a \<noteq> b
           \<and> overlappingEventPairs r = [summary a, summary b]
           \<and> overlap_duration_minutes r = overlapMinutes a b" by (rule c3)
  qed
qed

theorem C5_witness:
  "sorts insertion_sort (points_of ex_overlap_rows)
   \<and> distinct (map event_id ex_overlap_rows)
   \<and> ex_overlap_rows = [ex_row id_A ''A'' (minutes 0) (minutes 30),
                          ex_row id_B ''B'' (minutes 20) (minutes 50)]
   \<and> start_date (ex_row id_A ''A'' (minutes 0) (minutes 30))
       \<le> end_date (ex_row id_A ''A'' (minutes 0) (minutes 30))
   \<and> UUID_REGEX_test (event_id (ex_row id_A ''A'' (minutes 0) (minutes 30)))
   \<and> start_date (ex_row id_B ''B'' (minutes 20) (minutes 50))
       \<le> end_date (ex_row id_B ''B'' (minutes 20) (minutes 50))
   \<and> UUID_REGEX_test (event_id (ex_row id_B ''B'' (minutes 20) (minutes 50)))
   \<and> 0 < overlapMinutes (ex_row id_A ''A'' (minutes 0) (minutes 30))
                          (ex_row id_B ''B'' (minutes 20) (minutes 50))
   \<and> (\<exists>r \<in> set (findOverlappingEvents insertion_sort ex_overlap_rows). pair_ids r = {id_A, id_B})
   \<and> map overlap_duration_minutes (findOverlappingEvents insertion_sort ex_overlap_rows) = [10]
   \<and> findOverlappingEvents insertion_sort ex_touching_rows = []"
proof -
  let ?a = "ex_row id_A ''A'' (minutes 0) (minutes 30)"
  let ?b = "ex_row id_B ''B'' (minutes 20) (minutes 50)"
  have h1: "sorts insertion_sort (points_of ex_overlap_rows)" by code_simp
  have h2: "distinct (map event_id ex_overlap_rows)" by code_simp
  have r: "ex_overlap_rows = [?a, ?b]" by (simp add: ex_overlap_rows_def)
  have a1: "start_date ?a \<le> end_date ?a" by code_simp
  have a2: "UUID_REGEX_test (event_id ?a)" by code_simp
  have b1: "start_date ?b \<le> end_date ?b" by code_simp
  have b2: "UUID_REGEX_test (event_id ?b)" by code_simp
  from a1 a2 b1 b2
  have h3: "\<forall>e \<in> set ex_overlap_rows. start_date e \<le> end_date e \<and> UUID_REGEX_test (event_id e)"
    unfolding r by simp
  have p: "0 < overlapMinutes ?a ?b" by code_simp
  have m: "?a \<in> set ex_overlap_rows" "?b \<in> set ex_overlap_rows"
    by (simp_all add: ex_overlap_rows_def)
  have n: "?a \<noteq> ?b" by code_simp
  have ia: "event_id ?a = id_A" and ib: "event_id ?b = id_B" by (simp_all add: ex_row_def)
  from C5_overlapping_pairs_reported_once[OF h1 h2 h3] m n p
  have "\<exists>r \<in> set (findOverlappingEvents insertion_sort ex_overlap_rows).
          pair_ids r = {event_id ?a, event_id ?b}" by blast
  then have w: "\<exists>r \<in> set (findOverlappingEvents insertion_sort ex_overlap_rows).
          pair_ids r = {id_A, id_B}" by (simp only: ia ib)
  have v: "map overlap_duration_minutes (findOverlappingEvents insertion_sort ex_overlap_rows) = [10]"
    by code_simp
  have z: "findOverlappingEvents insertion_sort ex_touching_rows = []" by code_simp
  show ?thesis by (intro conjI h1 h2 r a1 a2 b1 b2 p w v z)
qed

section \<open>Properties of the influence path finder\<close>

lemma eventMap_foldl_other:
  "v \<notin> event_id ` set rows \<Longrightarrow>
   foldl (\<lambda>m ev. m(event_id ev \<mapsto> node_of ev)) m rows v = m v"
  by (induction rows arbitrary: m) auto

lemma eventMap_foldl_row:
  "distinct (map event_id rows) \<Longrightarrow> r \<in> set rows \<Longrightarrow>
   foldl (\<lambda>m ev. m(event_id ev \<mapsto> node_of ev)) m rows (event_id r) = Some (node_of r)"
proof (induction rows arbitrary: m)
  case Nil
  then show ?case by simp
next
  case (Cons a rows)
  show ?case
  proof (cases "r = a")
    case True
    from Cons.prems(1) have "event_id a \<notin> event_id ` set rows" by simp
    from eventMap_foldl_other[OF this, of "m(event_id a \<mapsto> node_of a)"]
    have "foldl (\<lambda>m ev. m(event_id ev \<mapsto> node_of ev)) (m(event_id a \<mapsto> node_of a)) rows
            (event_id a) = Some (node_of a)" by (simp only: fun_upd_same)
    then show ?thesis unfolding True by (simp only: foldl_Cons)
  next
    case False
    with Cons.prems have "r \<in> set rows" "distinct (map event_id rows)" by simp_all
    from Cons.IH[OF this(2,1)] show ?thesis by simp
  qed
qed

lemma buildEventMap_row:
  "distinct (map event_id rows) \<Longrightarrow> r \<in> set rows \<Longrightarrow>
   buildEventMap rows (event_id r) = Some (node_of r)"
  unfolding buildEventMap_def by (rule eventMap_foldl_row)

lemma buildEventMap_other: "v \<notin> event_id ` set rows \<Longrightarrow> buildEventMap rows v = None"
  unfolding buildEventMap_def by (simp add: eventMap_foldl_other)

lemma childrenMap_foldl:
  "foldl (\<lambda>m ev. case parent_event_id ev of None \<Rightarrow> m
                   | Some p \<Rightarrow> m(p := m p @ [event_id ev])) m rows u
   = m u @ map event_id (filter (\<lambda>r. parent_event_id r = Some u) rows)"
  by (induction rows arbitrary: m) (auto split: option.splits)

lemma buildChildrenMap_eq:
  "buildChildrenMap rows u = map event_id (filter (\<lambda>r. parent_event_id r = Some u) rows)"
  unfolding buildChildrenMap_def by (simp add: childrenMap_foldl)

lemma pick_Some: "\<exists>u. pick d (Some y) xs = Some u \<and> u \<in> insert y (set xs)"
proof (induction xs arbitrary: y)
  case Nil
  then show ?case by simp
next
  case (Cons x xs)
  from Cons.IH[of x] Cons.IH[of y] show ?case by auto
qed

lemma pick_None: "pick d None xs = None \<Longrightarrow> xs = []"
proof (cases xs)
  case Nil
  then show ?thesis by simp
next
  case (Cons x rest)
  assume "pick d None xs = None"
  with Cons pick_Some[of d x rest] show ?thesis by simp
qed

lemma pick_member: "pick d None xs = Some u \<Longrightarrow> u \<in> set xs"
proof (cases xs)
  case Nil
  assume "pick d None xs = Some u"
  with Nil show ?thesis by simp
next
  case (Cons x rest)
  assume "pick d None xs = Some u"
  with Cons pick_Some[of d x rest] show ?thesis by auto
qed

lemma relax_fresh:
  assumes "distances st u = Finite du"
    and "distinct vs"
    and "\<forall>v \<in> set vs. distances st v = Infinity \<and> v \<noteq> u \<and> v \<notin> set (pq st)"
  shows "distances (relax em u st vs)
           = (\<lambda>x. if x \<in> set vs then Finite (du + duration_at em x) else distances st x)
       \<and> previousNodes (relax em u st vs)
           = (\<lambda>x. if x \<in> set vs then Some u else previousNodes st x)
       \<and> pq (relax em u st vs) = pq st @ vs"
  using assms
proof (induction vs arbitrary: st)
  case Nil
  then show ?case by simp
next
  case (Cons v vs)
  let ?st' = "st\<lparr> distances := (distances st)(v := Finite (du + duration_at em v)),
                  previousNodes := (previousNodes st)(v \<mapsto> u),
                  pq := pq st @ [v] \<rparr>"
  from Cons.prems have "distances st v = Infinity" "v \<notin> set (pq st)" by simp_all
  with Cons.prems(1) have step: "relax em u st (v # vs) = relax em u ?st' vs"
    by (simp add: Let_def)
  from Cons.prems have p1: "distances ?st' u = Finite du" by auto
  from Cons.prems have p2: "distinct vs" by simp
  from Cons.prems have p3: "\<forall>w \<in> set vs. distances ?st' w = Infinity \<and> w \<noteq> u \<and> w \<notin> set (pq ?st')"
    by auto
  from Cons.IH[OF p1 p2 p3] Cons.prems(2) show ?case
    unfolding step by (auto simp: fun_eq_iff)
qed

lemma chain_hd_in: "chain rows c \<Longrightarrow> hd c \<in> set rows"
  by (induction rows c rule: chain.induct) auto

lemma chain_subset: "chain rows c \<Longrightarrow> set c \<subseteq> set rows"
  by (induction rows c rule: chain.induct) auto

lemma chain_Cons:
  "chain rows c \<Longrightarrow> r \<in> set rows \<Longrightarrow> parent_event_id r = Some (event_id (hd c)) \<Longrightarrow>
   chain rows (r # c)"
  by (cases c) auto

lemma same_id:
  "distinct (map event_id rows) \<Longrightarrow> a \<in> set rows \<Longrightarrow> b \<in> set rows \<Longrightarrow>
   event_id a = event_id b \<Longrightarrow> a = b"
  by (meson distinct_map inj_onD)

lemma chain_unique:
  "chain rows c \<Longrightarrow> chain rows c' \<Longrightarrow> event_id (hd c) = event_id (hd c') \<Longrightarrow>
   event_id (last c) = source \<Longrightarrow> event_id (last c') = source \<Longrightarrow>
   distinct (map event_id rows) \<Longrightarrow>
   \<forall>r \<in> set rows. event_id r = source \<longrightarrow>
      (\<forall>q \<in> set rows. parent_event_id r \<noteq> Some (event_id q)) \<Longrightarrow>
   c = c'"
proof (induction rows c arbitrary: c' rule: chain.induct)
  case (1 rows)
  then show ?case by simp
next
  case (2 rows r)
  from "2.prems"(1,4) have r: "r \<in> set rows" "event_id r = source" by simp_all
  show ?case
  proof (cases c')
    case Nil
    with "2.prems"(2) show ?thesis by simp
  next
    case (Cons r' rest')
    with "2.prems"(2) have r': "r' \<in> set rows" by (cases rest') simp_all
    from "2.prems"(3) Cons have "event_id r = event_id r'" by simp
    from same_id[OF "2.prems"(6) r(1) r' this] have e: "r = r'" .
    show ?thesis
    proof (cases rest')
      case Nil
      with Cons e show ?thesis by simp
    next
      case (Cons q' rest'')
      with \<open>c' = r' # rest'\<close> "2.prems"(2) have "parent_event_id r' = Some (event_id q')"
        and "q' \<in> set rows" using chain_hd_in[of rows "q' # rest''"] by simp_all
      with "2.prems"(7) r e show ?thesis by blast
    qed
  qed
next
  case (3 rows r q rest)
  from "3.prems"(1) have r: "r \<in> set rows" and pr: "parent_event_id r = Some (event_id q)"
    and cq: "chain rows (q # rest)" by simp_all
  from chain_hd_in[OF cq] have q: "q \<in> set rows" by simp
  show ?case
  proof (cases c')
    case Nil
    with "3.prems"(2) show ?thesis by simp
  next
    case (Cons r' rest')
    with "3.prems"(2) have r': "r' \<in> set rows" by (cases rest') simp_all
    from "3.prems"(3) Cons have "event_id r = event_id r'" by simp
    from same_id[OF "3.prems"(6) r r' this] have e: "r = r'" .
    show ?thesis
    proof (cases rest')
      case Nil
      with Cons "3.prems"(5) e have "event_id r = source" by simp
      with "3.prems"(7) r pr q show ?thesis by blast
    next
      case (Cons q' rest'')
      with \<open>c' = r' # rest'\<close> "3.prems"(2) have pq': "parent_event_id r' = Some (event_id q')"
        and cq': "chain rows (q' # rest'')" by simp_all
      from pr pq' e have h: "event_id (hd (q # rest)) = event_id (hd (q' # rest''))" by simp
      from "3.prems"(4) have l: "event_id (last (q # rest)) = source" by simp
      from "3.prems"(5) \<open>c' = r' # rest'\<close> Cons have l': "event_id (last (q' # rest'')) = source"
        by simp
      from "3.IH"[OF cq cq' h l l' "3.prems"(6,7)] have "q # rest = q' # rest''" .
      with e \<open>c' = r' # rest'\<close> Cons show ?thesis by simp
    qed
  qed
qed

lemma chain_nonempty: "chain rows c \<Longrightarrow> c \<noteq> []"
  by (cases c) simp_all

lemma cost_Cons: "cost (r # c) = duration_minutes r + cost c"
  by (simp add: cost_def)

lemma duration_at_row:
  "distinct (map event_id rows) \<Longrightarrow> r \<in> set rows \<Longrightarrow>
   duration_at (buildEventMap rows) (event_id r) = duration_minutes r"
  by (simp add: duration_at_def buildEventMap_row node_of_def)

lemma search_step:
  assumes inv: "search_inv rows source st" and cl: "closed rows st"
    and d: "distinct (map event_id rows)"
    and root: "\<forall>r \<in> set rows. event_id r = source \<longrightarrow>
                 (\<forall>q \<in> set rows. parent_event_id r \<noteq> Some (event_id q))"
    and u: "u \<in> set (pq st)"
  shows "search_inv rows source
           (relax (buildEventMap rows) u (st\<lparr> pq := removeAll u (pq st) \<rparr>) (buildChildrenMap rows u))
       \<and> closed rows
           (relax (buildEventMap rows) u (st\<lparr> pq := removeAll u (pq st) \<rparr>) (buildChildrenMap rows u))
       \<and> settled
           (relax (buildEventMap rows) u (st\<lparr> pq := removeAll u (pq st) \<rparr>) (buildChildrenMap rows u))
           = insert u (settled st)"
proof -
  let ?em = "buildEventMap rows"
  let ?vs = "map event_id (filter (\<lambda>r. parent_event_id r = Some u) rows)"
  let ?st1 = "st\<lparr> pq := removeAll u (pq st) \<rparr>"
  let ?st2 = "relax ?em u ?st1 ?vs"
  let ?D = "discovered st"
  note i = inv[unfolded search_inv_def]
  from i have dpq: "distinct (pq st)" by (elim conjE)
  from i have pqD: "set (pq st) \<subseteq> ?D" by (elim conjE)
  from i have srcD: "source \<in> ?D" by (elim conjE)
  from i have DE: "?D \<subseteq> event_id ` set rows" by (elim conjE)
  from i have prevN: "\<forall>v. v \<notin> ?D \<longrightarrow> previousNodes st v = None" by (elim conjE)
  from i have j1: "\<forall>r \<in> set rows. event_id r \<in> ?D \<longrightarrow>
         previousNodes st (event_id r)
           = (if event_id r = source then None else parent_event_id r) \<and>
         (event_id r \<noteq> source \<longrightarrow> (\<exists>u \<in> settled st. parent_event_id r = Some u))"
    by (elim conjE)
  from i have j2: "\<forall>v \<in> ?D. \<exists>c. chain rows c \<and> event_id (hd c) = v \<and>
         event_id (last c) = source \<and> distances st v = Finite (cost c) \<and>
         event_id ` set c \<subseteq> ?D" by (elim conjE)
  from u pqD have uD: "u \<in> ?D" by blast
  with DE obtain qu where qu: "qu \<in> set rows" "event_id qu = u" by blast
  from uD j2 obtain cu where cu: "chain rows cu" "event_id (hd cu) = u"
    "event_id (last cu) = source" "distances st u = Finite (cost cu)"
    "event_id ` set cu \<subseteq> ?D" by blast
  from u have unS: "u \<notin> settled st" by (simp add: settled_def)
  have child: "v \<in> set ?vs \<longleftrightarrow> (\<exists>r \<in> set rows. parent_event_id r = Some u \<and> event_id r = v)" for v
    by auto
  have dvs: "distinct ?vs" using d by (rule distinct_map_filter)
  have fresh: "v \<notin> ?D" if "v \<in> set ?vs" for v
  proof
    assume vD: "v \<in> ?D"
    from that obtain r where r: "r \<in> set rows" "parent_event_id r = Some u" "event_id r = v"
      unfolding child by blast
    show False
    proof (cases "v = source")
      case True
      with root r qu show False by blast
    next
      case False
      with j1 r vD obtain u' where "u' \<in> settled st" "parent_event_id r = Some u'" by blast
      with r(2) unS show False by simp
    qed
  qed
  have pre: "\<forall>v \<in> set ?vs. distances ?st1 v = Infinity \<and> v \<noteq> u \<and> v \<notin> set (pq ?st1)"
  proof
    fix v assume v: "v \<in> set ?vs"
    from fresh[OF v] have "distances st v = Infinity" by (simp add: discovered_def)
    moreover from fresh[OF v] uD have "v \<noteq> u" by blast
    moreover from fresh[OF v] pqD have "v \<notin> set (pq st)" by blast
    ultimately show "distances ?st1 v = Infinity \<and> v \<noteq> u \<and> v \<notin> set (pq ?st1)" by simp
  qed
  have du: "distances ?st1 u = Finite (cost cu)" using cu(4) by simp
  note rf = relax_fresh[OF du dvs pre, of ?em]
  from rf have dist2: "distances ?st2 = (\<lambda>x. if x \<in> set ?vs then Finite (cost cu + duration_at ?em x)
                                      else distances st x)"
    by (simp add: fun_eq_iff)
  from rf have prev2: "previousNodes ?st2 = (\<lambda>x. if x \<in> set ?vs then Some u else previousNodes st x)"
    by (simp add: fun_eq_iff)
  from rf have pq2: "pq ?st2 = removeAll u (pq st) @ ?vs" by simp
  have D2: "discovered ?st2 = ?D \<union> set ?vs"
    unfolding discovered_def dist2 by (auto simp: discovered_def dest: fresh)
  have S2: "settled ?st2 = insert u (settled st)"
  proof -
    have "settled ?st2 = (?D \<union> set ?vs) - (set (pq st) - {u} \<union> set ?vs)"
      unfolding settled_def D2 pq2 by auto
    also have "\<dots> = insert u (?D - set (pq st))" using uD u fresh by blast
    finally show ?thesis by (simp add: settled_def)
  qed
  have n1: "distinct (pq ?st2)"
    unfolding pq2 using dpq dvs fresh pqD by (auto simp: distinct_removeAll)
  have n2: "set (pq ?st2) \<subseteq> discovered ?st2"
    unfolding pq2 D2 using pqD by auto
  have n3: "source \<in> discovered ?st2" unfolding D2 using srcD by simp
  have n4: "discovered ?st2 \<subseteq> event_id ` set rows" unfolding D2 using DE by auto
  have n5: "\<forall>v. v \<notin> discovered ?st2 \<longrightarrow> previousNodes ?st2 v = None"
    unfolding D2 prev2 using prevN by simp
  have n6: "\<forall>r \<in> set rows. event_id r \<in> discovered ?st2 \<longrightarrow>
         previousNodes ?st2 (event_id r)
           = (if event_id r = source then None else parent_event_id r) \<and>
         (event_id r \<noteq> source \<longrightarrow> (\<exists>w \<in> settled ?st2. parent_event_id r = Some w))"
  proof (intro ballI impI)
    fix r assume r: "r \<in> set rows" and rD: "event_id r \<in> discovered ?st2"
    show "previousNodes ?st2 (event_id r)
           = (if event_id r = source then None else parent_event_id r) \<and>
         (event_id r \<noteq> source \<longrightarrow> (\<exists>w \<in> settled ?st2. parent_event_id r = Some w))"
    proof (cases "event_id r \<in> set ?vs")
      case True
      then obtain r' where r': "r' \<in> set rows" "parent_event_id r' = Some u"
        "event_id r' = event_id r" unfolding child by blast
      from same_id[OF d r'(1) r r'(3)] r'(2) have pr: "parent_event_id r = Some u" by simp
      from fresh[OF True] srcD have ns: "event_id r \<noteq> source" by blast
      from True have "previousNodes ?st2 (event_id r) = Some u" unfolding prev2 by simp
      with pr ns show ?thesis unfolding S2 by simp
    next
      case False
      with rD have old: "event_id r \<in> ?D" unfolding D2 by simp
      from False have "previousNodes ?st2 (event_id r) = previousNodes st (event_id r)"
        unfolding prev2 by simp
      with j1 r old show ?thesis unfolding S2 by auto
    qed
  qed
  have n7: "\<forall>v \<in> discovered ?st2. \<exists>c. chain rows c \<and> event_id (hd c) = v \<and>
         event_id (last c) = source \<and> distances ?st2 v = Finite (cost c) \<and>
         event_id ` set c \<subseteq> discovered ?st2"
  proof
    fix v assume vD: "v \<in> discovered ?st2"
    show "\<exists>c. chain rows c \<and> event_id (hd c) = v \<and>
         event_id (last c) = source \<and> distances ?st2 v = Finite (cost c) \<and>
         event_id ` set c \<subseteq> discovered ?st2"
    proof (cases "v \<in> set ?vs")
      case True
      then obtain r where r: "r \<in> set rows" "parent_event_id r = Some u" "event_id r = v"
        unfolding child by blast
      from cu(2) r(2) have "parent_event_id r = Some (event_id (hd cu))" by simp
      from chain_Cons[OF cu(1) r(1) this] have c1: "chain rows (r # cu)" .
      have c2: "event_id (hd (r # cu)) = v" using r(3) by simp
      have c3: "event_id (last (r # cu)) = source"
        using cu(3) chain_nonempty[OF cu(1)] by simp
      have c4: "distances ?st2 v = Finite (cost (r # cu))"
        unfolding dist2 using True duration_at_row[OF d r(1)] r(3)
        by (simp add: cost_Cons)
      have c5: "event_id ` set (r # cu) \<subseteq> discovered ?st2"
        unfolding D2 using cu(5) True r(3) by auto
      from c1 c2 c3 c4 c5 show ?thesis by blast
    next
      case False
      with vD have old: "v \<in> ?D" unfolding D2 by simp
      with j2 obtain c where c: "chain rows c" "event_id (hd c) = v"
        "event_id (last c) = source" "distances st v = Finite (cost c)"
        "event_id ` set c \<subseteq> ?D" by blast
      from False c(4) have "distances ?st2 v = Finite (cost c)" unfolding dist2 by simp
      moreover from c(5) have "event_id ` set c \<subseteq> discovered ?st2" unfolding D2 by blast
      ultimately show ?thesis using c(1,2,3) by blast
    qed
  qed
  have inv2: "search_inv rows source ?st2"
    unfolding search_inv_def by (intro conjI n1 n2 n3 n4 n5 n6 n7)
  have cl2: "closed rows ?st2"
    unfolding closed_def
  proof (intro ballI impI)
    fix r w assume r: "r \<in> set rows" and w: "w \<in> settled ?st2"
      and p: "parent_event_id r = Some w"
    show "event_id r \<in> discovered ?st2"
    proof (cases "w = u")
      case True
      with r p have "event_id r \<in> set ?vs" unfolding child by blast
      then show ?thesis unfolding D2 by simp
    next
      case False
      with w have "w \<in> settled st" unfolding S2 by simp
      with cl r p have "event_id r \<in> ?D" unfolding closed_def by blast
      then show ?thesis unfolding D2 by simp
    qed
  qed
  show ?thesis
    unfolding buildChildrenMap_eq by (intro conjI inv2 cl2 S2)
qed

lemma search_inv_extract:
  assumes inv: "search_inv rows source st"
  shows "search_inv rows source (st\<lparr> pq := removeAll u (pq st) \<rparr>)"
proof -
  let ?st1 = "st\<lparr> pq := removeAll u (pq st) \<rparr>"
  have D: "discovered ?st1 = discovered st" by (simp add: discovered_def)
  have S: "settled st \<subseteq> settled ?st1" by (auto simp: settled_def D)
  note i = inv[unfolded search_inv_def]
  from i have "distinct (pq st)" by (elim conjE)
  then have n1: "distinct (pq ?st1)" by (simp add: distinct_removeAll)
  from i have "set (pq st) \<subseteq> discovered st" by (elim conjE)
  then have n2: "set (pq ?st1) \<subseteq> discovered ?st1" unfolding D by auto
  from i have n3: "source \<in> discovered ?st1" unfolding D by (elim conjE)
  from i have n4: "discovered ?st1 \<subseteq> event_id ` set rows" unfolding D by (elim conjE)
  from i have "\<forall>v. v \<notin> discovered st \<longrightarrow> previousNodes st v = None" by (elim conjE)
  then have n5: "\<forall>v. v \<notin> discovered ?st1 \<longrightarrow> previousNodes ?st1 v = None"
    unfolding D by simp
  from i have j1: "\<forall>r \<in> set rows. event_id r \<in> discovered st \<longrightarrow>
         previousNodes st (event_id r)
           = (if event_id r = source then None else parent_event_id r) \<and>
         (event_id r \<noteq> source \<longrightarrow> (\<exists>u \<in> settled st. parent_event_id r = Some u))"
    by (elim conjE)
  have n6: "\<forall>r \<in> set rows. event_id r \<in> discovered ?st1 \<longrightarrow>
         previousNodes ?st1 (event_id r)
           = (if event_id r = source then None else parent_event_id r) \<and>
         (event_id r \<noteq> source \<longrightarrow> (\<exists>w \<in> settled ?st1. parent_event_id r = Some w))"
  proof (intro ballI impI)
    fix r assume r: "r \<in> set rows" and rD: "event_id r \<in> discovered ?st1"
    with j1 have a: "previousNodes st (event_id r)
           = (if event_id r = source then None else parent_event_id r)"
      and b: "event_id r \<noteq> source \<longrightarrow> (\<exists>u \<in> settled st. parent_event_id r = Some u)"
      unfolding D by blast+
    from b S have "event_id r \<noteq> source \<longrightarrow> (\<exists>w \<in> settled ?st1. parent_event_id r = Some w)"
      by blast
    with a show "previousNodes ?st1 (event_id r)
           = (if event_id r = source then None else parent_event_id r) \<and>
         (event_id r \<noteq> source \<longrightarrow> (\<exists>w \<in> settled ?st1. parent_event_id r = Some w))"
      by simp
  qed
  from i have "\<forall>v \<in> discovered st. \<exists>c. chain rows c \<and> event_id (hd c) = v \<and>
         event_id (last c) = source \<and> distances st v = Finite (cost c) \<and>
         event_id ` set c \<subseteq> discovered st" by (elim conjE)
  then have n7: "\<forall>v \<in> discovered ?st1. \<exists>c. chain rows c \<and> event_id (hd c) = v \<and>
         event_id (last c) = source \<and> distances ?st1 v = Finite (cost c) \<and>
         event_id ` set c \<subseteq> discovered ?st1" unfolding D by simp
  show ?thesis unfolding search_inv_def by (intro conjI n1 n2 n3 n4 n5 n6 n7)
qed

lemma dijkstra_returns:
  assumes d: "distinct (map event_id rows)"
    and root: "\<forall>r \<in> set rows. event_id r = source \<longrightarrow>
                 (\<forall>q \<in> set rows. parent_event_id r \<noteq> Some (event_id q))"
  shows "search_inv rows source st \<Longrightarrow> closed rows st \<Longrightarrow>
         \<exists>st'. dijkstra (buildEventMap rows) (buildChildrenMap rows) target st = Some st'
            \<and> search_inv rows source st'
            \<and> (target \<in> discovered st' \<or> (pq st' = [] \<and> closed rows st'))"
proof (induction st rule: measure_induct_rule[where f = "\<lambda>st. card (event_id ` set rows - settled st)"])
  case (less st)
  let ?em = "buildEventMap rows" and ?cm = "buildChildrenMap rows"
  show ?case
  proof (cases "pick (distances st) None (pq st)")
    case None
    then have e: "pq st = []" by (rule pick_None)
    from None have "dijkstra ?em ?cm target st = Some st"
      by (subst dijkstra.simps) simp
    with less.prems e show ?thesis by simp
  next
    case (Some u)
    then have u: "u \<in> set (pq st)" by (rule pick_member)
    let ?st1 = "st\<lparr> pq := removeAll u (pq st) \<rparr>"
    show ?thesis
    proof (cases "u = target")
      case True
      from Some True have r: "dijkstra ?em ?cm target st = Some ?st1"
        by (subst dijkstra.simps) (simp add: Let_def)
      from less.prems(1) have "set (pq st) \<subseteq> discovered st" unfolding search_inv_def by (elim conjE)
      with u True have "target \<in> discovered ?st1" by (auto simp: discovered_def)
      with r search_inv_extract[OF less.prems(1), of u] show ?thesis by simp
    next
      case False
      let ?st2 = "relax ?em u ?st1 (?cm u)"
      from Some False have r: "dijkstra ?em ?cm target st = dijkstra ?em ?cm target ?st2"
        by (subst dijkstra.simps) (simp add: Let_def)
      note s = search_step[OF less.prems(1,2) d root u]
      from s have i2: "search_inv rows source ?st2" by (elim conjE)
      from s have c2: "closed rows ?st2" by (elim conjE)
      from s have S2: "settled ?st2 = insert u (settled st)" by (elim conjE)
      note i = less.prems(1)[unfolded search_inv_def]
      from i have a: "set (pq st) \<subseteq> discovered st" by (elim conjE)
      from i have b: "discovered st \<subseteq> event_id ` set rows" by (elim conjE)
      from u a b have uE: "u \<in> event_id ` set rows" by blast
      from u have unS: "u \<notin> settled st" by (simp add: settled_def)
      have "event_id ` set rows - settled ?st2 \<subset> event_id ` set rows - settled st"
        unfolding S2 using uE unS by blast
      then have "card (event_id ` set rows - settled ?st2) < card (event_id ` set rows - settled st)"
        by (intro psubset_card_mono) simp_all
      from less.IH[OF this i2 c2] r show ?thesis by simp
    qed
  qed
qed

lemma closed_reaches:
  assumes inv: "search_inv rows source st" and cl: "closed rows st" and e: "pq st = []"
  shows "chain rows c \<Longrightarrow> event_id (last c) = source \<Longrightarrow> event_id (hd c) \<in> discovered st"
proof (induction c)
  case Nil
  then show ?case by simp
next
  case (Cons r c)
  show ?case
  proof (cases c)
    case Nil
    from inv have "source \<in> discovered st" unfolding search_inv_def by (elim conjE)
    with Cons.prems Nil show ?thesis by simp
  next
    case (Cons q rest)
    with Cons.prems have r: "r \<in> set rows" and p: "parent_event_id r = Some (event_id q)"
      and c: "chain rows c" and l: "event_id (last c) = source" by simp_all
    from Cons.IH[OF c l] Cons have "event_id q \<in> discovered st" by simp
    with e have "event_id q \<in> settled st" by (simp add: settled_def)
    with cl r p have "event_id r \<in> discovered st" unfolding closed_def by blast
    then show ?thesis by simp
  qed
qed

lemma walk_chain:
  assumes d: "distinct (map event_id rows)"
    and root: "\<forall>r \<in> set rows. event_id r = source \<longrightarrow>
                 (\<forall>q \<in> set rows. parent_event_id r \<noteq> Some (event_id q))"
  shows "chain rows c \<Longrightarrow> event_id (last c) = source \<Longrightarrow>
         \<forall>r \<in> set c. previous (event_id r)
                         = (if event_id r = source then None else parent_event_id r) \<Longrightarrow>
         walk (buildEventMap rows) previous (event_id (hd c)) acc
           = Some (map (Some \<circ> node_of) (rev c) @ acc)"
proof (induction c arbitrary: acc)
  case Nil
  then show ?case by simp
next
  case (Cons r c)
  show ?case
  proof (cases c)
    case Nil
    with Cons.prems have r: "r \<in> set rows" and s: "event_id r = source" by simp_all
    from Cons.prems(3) s have "previous (event_id r) = None" by simp
    then have "walk (buildEventMap rows) previous (event_id r) acc
                 = Some (buildEventMap rows (event_id r) # acc)"
      by (subst walk.simps) simp
    with buildEventMap_row[OF d r] Nil show ?thesis by simp
  next
    case (Cons q rest)
    with Cons.prems have r: "r \<in> set rows" and p: "parent_event_id r = Some (event_id q)"
      and c: "chain rows c" and l: "event_id (last c) = source" by simp_all
    from chain_hd_in[OF c] Cons have q: "q \<in> set rows" by simp
    from root r p q have ns: "event_id r \<noteq> source" by blast
    with Cons.prems(3) p have "previous (event_id r) = Some (event_id q)" by simp
    then have "walk (buildEventMap rows) previous (event_id r) acc
                 = walk (buildEventMap rows) previous (event_id q)
                     (buildEventMap rows (event_id r) # acc)"
      by (subst walk.simps) simp
    also have "\<dots> = Some (map (Some \<circ> node_of) (rev c) @ buildEventMap rows (event_id r) # acc)"
      using Cons.IH[OF c l, of "buildEventMap rows (event_id r) # acc"] Cons.prems(3) Cons
      by simp
    finally show ?thesis using buildEventMap_row[OF d r] by simp
  qed
qed

lemma search_inv_init:
  assumes d: "distinct (map event_id rows)" and r: "r \<in> set rows" and s: "event_id r = source"
  shows "search_inv rows source
           \<lparr> distances = (\<lambda>u. Infinity)(source := Finite (duration_minutes r)),
             previousNodes = Map.empty, pq = [source] \<rparr>
       \<and> closed rows
           \<lparr> distances = (\<lambda>u. Infinity)(source := Finite (duration_minutes r)),
             previousNodes = Map.empty, pq = [source] \<rparr>"
proof -
  let ?st = "\<lparr> distances = (\<lambda>u. Infinity)(source := Finite (duration_minutes r)),
               previousNodes = Map.empty, pq = [source] \<rparr>"
  have D: "discovered ?st = {source}" by (auto simp: discovered_def)
  have S: "settled ?st = {}" by (simp add: settled_def D)
  have n6: "\<forall>q \<in> set rows. event_id q \<in> discovered ?st \<longrightarrow>
         previousNodes ?st (event_id q)
           = (if event_id q = source then None else parent_event_id q) \<and>
         (event_id q \<noteq> source \<longrightarrow> (\<exists>w \<in> settled ?st. parent_event_id q = Some w))"
    unfolding D by simp
  have "chain rows [r] \<and> event_id (hd [r]) = source \<and> event_id (last [r]) = source
          \<and> distances ?st source = Finite (cost [r]) \<and> event_id ` set [r] \<subseteq> {source}"
    using r s by (simp add: cost_def)
  then have n7: "\<forall>v \<in> discovered ?st. \<exists>c. chain rows c \<and> event_id (hd c) = v \<and>
         event_id (last c) = source \<and> distances ?st v = Finite (cost c) \<and>
         event_id ` set c \<subseteq> discovered ?st"
    unfolding D by blast
  have n4: "discovered ?st \<subseteq> event_id ` set rows" unfolding D using r s by auto
  have inv: "search_inv rows source ?st"
    unfolding search_inv_def
    by (intro conjI n4 n6 n7) (simp_all add: D)
  have cl: "closed rows ?st" unfolding closed_def S by simp
  from inv cl show ?thesis by simp
qed

lemma buildEventMap_member:
  assumes "distinct (map event_id rows)" and "v \<in> event_id ` set rows"
  shows "buildEventMap rows v \<noteq> None"
proof -
  from assms(2) obtain r where r: "r \<in> set rows" "event_id r = v" by blast
  from buildEventMap_row[OF assms(1) r(1)] r(2) show ?thesis by simp
qed

lemma cost_rev: "cost (rev p) = cost p"
  by (simp add: cost_def rev_map[symmetric])

lemma findEventInfluencePath_found:
  assumes "events \<noteq> []" and "buildEventMap events target \<noteq> None"
    and "buildEventMap events source = Some (i, n, dd)"
    and "dijkstra (buildEventMap events) (buildChildrenMap events) target
           \<lparr> distances = (\<lambda>u. Infinity)(source := Finite dd),
             previousNodes = Map.empty, pq = [source] \<rparr> = Some st"
    and "previousNodes st target \<noteq> None \<or> target = source"
    and "walk (buildEventMap events) (previousNodes st) target [] = Some (Some first # rest)"
    and "fst first = source"
  shows "findEventInfluencePath events source target =
           Some (Inr (Influence
             \<lparr> sourceEventId = source, targetEventId = target,
               shortestPath = Some first # rest,
               totalDurationMinutes = distances st target,
               path_message = ''Shortest temporal path found from source to target event.'' \<rparr>))"
  using assms by (auto simp add: findEventInfluencePath_def Let_def)

lemma findEventInfluencePath_none:
  assumes "events \<noteq> []" and "buildEventMap events target \<noteq> None"
    and "buildEventMap events source = Some (i, n, dd)"
    and "dijkstra (buildEventMap events) (buildChildrenMap events) target
           \<lparr> distances = (\<lambda>u. Infinity)(source := Finite dd),
             previousNodes = Map.empty, pq = [source] \<rparr> = Some st"
    and "previousNodes st target = None" and "target \<noteq> source"
  shows "findEventInfluencePath events source target = Some (Inr (no_path source target))"
  using assms by (auto simp add: findEventInfluencePath_def Let_def)

text \<open>
  C7. The rows are those of the descendants of the source: their IDs are distinct, the
  source is one of them, and the parent of the source is none of them. The source's
  distance starts at its own duration. If there is a path from the source to the target
  along parent-to-child links, the finder returns it, with the total of the durations of
  its rows, the source's included, and no path from the source to the target costs less;
  if there is none (in particular, if the target is not among the rows), it returns the
  empty path, a total of 0 and the no-path message. (A(30) -> B(10) -> C(5): the path
  from A to C is A, B, C with total 45, as evaluated after the theorem.)
\<close>

theorem C7_influence_path:
  assumes d: "distinct (map event_id rows)"
    and src: "source \<in> event_id ` set rows"
    and root: "\<forall>r \<in> set rows. event_id r = source \<longrightarrow>
                 (\<forall>q \<in> set rows. parent_event_id r \<noteq> Some (event_id q))"
  shows "(\<forall>p. influence_path rows source target p \<longrightarrow>
            findEventInfluencePath rows source target =
              Some (Inr (Influence
                \<lparr> sourceEventId = source, targetEventId = target,
                  shortestPath = map (Some \<circ> node_of) p,
                  totalDurationMinutes = Finite (cost p),
                  path_message = ''Shortest temporal path found from source to target event.'' \<rparr>))
            \<and> (\<forall>q. influence_path rows source target q \<longrightarrow> cost p \<le> cost q))
       \<and> ((\<forall>p. \<not> influence_path rows source target p) \<longrightarrow>
            findEventInfluencePath rows source target = Some (Inr (no_path source target)))"
proof -
  let ?em = "buildEventMap rows" and ?cm = "buildChildrenMap rows"
  from src obtain rs where rs: "rs \<in> set rows" "event_id rs = source" by blast
  then have ne: "rows \<noteq> []" by auto
  have ems: "?em source = Some (event_id rs, event_name rs, duration_minutes rs)"
    using buildEventMap_row[OF d rs(1)] rs(2) by (simp add: node_of_def)
  let ?st0 = "\<lparr> distances = (\<lambda>u. Infinity)(source := Finite (duration_minutes rs)),
               previousNodes = Map.empty, pq = [source] \<rparr>"
  from search_inv_init[OF d rs] have i0: "search_inv rows source ?st0" and c0: "closed rows ?st0"
    by simp_all
  from dijkstra_returns[OF d root i0 c0, of target] obtain st where
    run: "dijkstra ?em ?cm target ?st0 = Some st" and inv: "search_inv rows source st"
    and post: "target \<in> discovered st \<or> (pq st = [] \<and> closed rows st)" by blast
  note i = inv[unfolded search_inv_def]
  from i have prevN: "\<forall>v. v \<notin> discovered st \<longrightarrow> previousNodes st v = None" by (elim conjE)
  from i have j1: "\<forall>r \<in> set rows. event_id r \<in> discovered st \<longrightarrow>
         previousNodes st (event_id r)
           = (if event_id r = source then None else parent_event_id r) \<and>
         (event_id r \<noteq> source \<longrightarrow> (\<exists>u \<in> settled st. parent_event_id r = Some u))"
    by (elim conjE)
  from i have j2: "\<forall>v \<in> discovered st. \<exists>c. chain rows c \<and> event_id (hd c) = v \<and>
         event_id (last c) = source \<and> distances st v = Finite (cost c) \<and>
         event_id ` set c \<subseteq> discovered st" by (elim conjE)
  have path_chain: "chain rows (rev p) \<and> event_id (hd (rev p)) = target
                      \<and> event_id (last (rev p)) = source \<and> p \<noteq> []"
    if "influence_path rows source target p" for p
  proof -
    from that have c: "chain rows (rev p)" and h: "event_id (hd p) = source"
      and l: "event_id (last p) = target" by (simp_all add: influence_path_def)
    from chain_nonempty[OF c] have "p \<noteq> []" by simp
    with c h l show ?thesis by (simp add: hd_rev last_rev)
  qed
  have found: "findEventInfluencePath rows source target =
              Some (Inr (Influence
                \<lparr> sourceEventId = source, targetEventId = target,
                  shortestPath = map (Some \<circ> node_of) p,
                  totalDurationMinutes = Finite (cost p),
                  path_message = ''Shortest temporal path found from source to target event.'' \<rparr>))
            \<and> (\<forall>q. influence_path rows source target q \<longrightarrow> cost p \<le> cost q)"
    if p: "influence_path rows source target p" for p
  proof -
    let ?c = "rev p"
    from path_chain[OF p] have c: "chain rows ?c" and hc: "event_id (hd ?c) = target"
      and lc: "event_id (last ?c) = source" and pne: "p \<noteq> []" by simp_all
    from chain_hd_in[OF c] hc have tE: "target \<in> event_id ` set rows" by force
    from post have tD: "target \<in> discovered st"
    proof
      assume "target \<in> discovered st" then show ?thesis .
    next
      assume "pq st = [] \<and> closed rows st"
      then have "pq st = []" "closed rows st" by simp_all
      from closed_reaches[OF inv this(2,1) c lc] hc show ?thesis by simp
    qed
    with j2 obtain c' where c': "chain rows c'" "event_id (hd c') = target"
      "event_id (last c') = source" "distances st target = Finite (cost c')"
      "event_id ` set c' \<subseteq> discovered st" by blast
    from hc c'(2) have "event_id (hd c') = event_id (hd ?c)" by simp
    from chain_unique[OF c'(1) c this c'(3) lc d root] have eq: "c' = ?c" .
    have pv: "\<forall>r \<in> set ?c. previousNodes st (event_id r)
                         = (if event_id r = source then None else parent_event_id r)"
    proof
      fix r assume r: "r \<in> set ?c"
      with chain_subset[OF c] have "r \<in> set rows" by blast
      moreover from r c'(5) eq have "event_id r \<in> discovered st" by blast
      ultimately show "previousNodes st (event_id r)
                         = (if event_id r = source then None else parent_event_id r)"
        using j1 by blast
    qed
    from walk_chain[OF d root c lc pv, of "[]"] hc
    have w: "walk ?em (previousNodes st) target [] = Some (map (Some \<circ> node_of) p)" by simp
    from pne obtain ph pt where pp: "p = ph # pt" by (cases p) simp_all
    from p pp have hs: "event_id ph = source" by (simp add: influence_path_def)
    from w pp have w': "walk ?em (previousNodes st) target []
                          = Some (Some (node_of ph) # map (Some \<circ> node_of) pt)" by simp
    have f: "fst (node_of ph) = source" using hs by (simp add: node_of_def)
    have cond: "previousNodes st target \<noteq> None \<or> target = source"
    proof (cases "target = source")
      case True
      then show ?thesis by simp
    next
      case False
      from chain_hd_in[OF c] have hr: "hd ?c \<in> set rows" .
      with j1 hc tD False obtain u where "parent_event_id (hd ?c) = Some u"
        and "previousNodes st target = parent_event_id (hd ?c)" by force
      then show ?thesis by simp
    qed
    from tE have emt: "?em target \<noteq> None" by (rule buildEventMap_member[OF d])
    from findEventInfluencePath_found[OF ne emt ems run cond w' f]
    have "findEventInfluencePath rows source target =
           Some (Inr (Influence
             \<lparr> sourceEventId = source, targetEventId = target,
               shortestPath = map (Some \<circ> node_of) p,
               totalDurationMinutes = Finite (cost p),
               path_message = ''Shortest temporal path found from source to target event.'' \<rparr>))"
      unfolding pp[symmetric] c'(4) eq cost_rev by (simp add: pp)
    moreover have "cost p \<le> cost q" if q: "influence_path rows source target q" for q
    proof -
      from path_chain[OF q] have cq: "chain rows (rev q)" and hq: "event_id (hd (rev q)) = target"
        and lq: "event_id (last (rev q)) = source" by simp_all
      from hq hc have "event_id (hd (rev q)) = event_id (hd ?c)" by simp
      from chain_unique[OF cq c this lq lc d root] have "rev q = rev p" .
      then have "q = p" by simp
      then show ?thesis by simp
    qed
    ultimately show ?thesis by blast
  qed
  have none: "findEventInfluencePath rows source target = Some (Inr (no_path source target))"
    if np: "\<forall>p. \<not> influence_path rows source target p"
  proof (cases "target \<in> event_id ` set rows")
    case False
    then have "?em target = None" by (rule buildEventMap_other)
    with ne show ?thesis by (simp add: findEventInfluencePath_def Let_def)
  next
    case True
    then have emt: "?em target \<noteq> None" by (rule buildEventMap_member[OF d])
    have tnD: "target \<notin> discovered st"
    proof
      assume "target \<in> discovered st"
      with j2 obtain c where c: "chain rows c" "event_id (hd c) = target"
        "event_id (last c) = source" by blast
      from chain_nonempty[OF c(1)] c have "influence_path rows source target (rev c)"
        by (simp add: influence_path_def hd_rev last_rev)
      with np show False by blast
    qed
    with prevN have pn: "previousNodes st target = None" by blast
    have ts: "target \<noteq> source"
    proof
      assume "target = source"
      with rs have "influence_path rows source target [rs]" by (simp add: influence_path_def)
      with np show False by blast
    qed
    from findEventInfluencePath_none[OF ne emt ems run pn ts] show ?thesis .
  qed
  show ?thesis
  proof (intro conjI allI impI)
    fix p assume "influence_path rows source target p"
    from found[OF this] show "findEventInfluencePath rows source target =
              Some (Inr (Influence
                \<lparr> sourceEventId = source, targetEventId = target,
                  shortestPath = map (Some \<circ> node_of) p,
                  totalDurationMinutes = Finite (cost p),
                  path_message = ''Shortest temporal path found from source to target event.'' \<rparr>))"
      by (elim conjE)
  next
    fix p q assume "influence_path rows source target p" "influence_path rows source target q"
    from found[OF this(1)] this(2) show "cost p \<le> cost q" by blast
  next
    assume "\<forall>p. \<not> influence_path rows source target p"
    then show "findEventInfluencePath rows source target = Some (Inr (no_path source target))"
      by (rule none)
  qed
qed

theorem C7_witness:
  "distinct (map event_id ex_tree)
   \<and> id_A \<in> event_id ` set ex_tree
   \<and> influence_path ex_tree id_A id_C ex_tree
   \<and> findEventInfluencePath ex_tree id_A id_C =
       Some (Inr (Influence
         \<lparr> sourceEventId = id_A, targetEventId = id_C,
           shortestPath = [Some (id_A, ''A'', 30), Some (id_B, ''B'', 10), Some (id_C, ''C'', 5)],
           totalDurationMinutes = Finite 45,
           path_message = ''Shortest temporal path found from source to target event.'' \<rparr>))
   \<and> findEventInfluencePath ex_tree id_A id_E = Some (Inr (no_path id_A id_E))"
proof -
  have h1: "distinct (map event_id ex_tree)" by code_simp
  have h2: "id_A \<in> event_id ` set ex_tree" by code_simp
  have h3: "\<forall>r \<in> set ex_tree. event_id r = id_A \<longrightarrow>
              (\<forall>q \<in> set ex_tree. parent_event_id r \<noteq> Some (event_id q))" by code_simp
  have ip: "influence_path ex_tree id_A id_C ex_tree" by code_simp
  have m: "map (Some \<circ> node_of) ex_tree
             = [Some (id_A, ''A'', 30), Some (id_B, ''B'', 10), Some (id_C, ''C'', 5)]"
    by (simp add: ex_tree_def ex_tree_row_def node_of_def)
  have c: "cost ex_tree = 45" by (simp add: ex_tree_def ex_tree_row_def cost_def)
  from C7_influence_path[OF h1 h2 h3, of id_C] ip
  have "findEventInfluencePath ex_tree id_A id_C =
       Some (Inr (Influence
         \<lparr> sourceEventId = id_A, targetEventId = id_C,
           shortestPath = map (Some \<circ> node_of) ex_tree,
           totalDurationMinutes = Finite (cost ex_tree),
           path_message = ''Shortest temporal path found from source to target event.'' \<rparr>))"
    by blast
  then have f: "findEventInfluencePath ex_tree id_A id_C =
       Some (Inr (Influence
         \<lparr> sourceEventId = id_A, targetEventId = id_C,
           shortestPath = [Some (id_A, ''A'', 30), Some (id_B, ''B'', 10), Some (id_C, ''C'', 5)],
           totalDurationMinutes = Finite 45,
           path_message = ''Shortest temporal path found from source to target event.'' \<rparr>))"
    by (simp only: m c)
  have n: "findEventInfluencePath ex_tree id_A id_E = Some (Inr (no_path id_A id_E))"
    by code_simp
  show ?thesis by (intro conjI h1 h2 ip f n)
qed

end
